theory Spec2Isabelle
  imports Main
begin

section \<open>The GoDebug trace index of the editor (core/godebuginstance.go)\<close>

text \<open>
  A shallow embedding of \<^verbatim>\<open>GDDataIndex\<close>, \<^verbatim>\<open>GDFileMsgs\<close>, \<^verbatim>\<open>GDLineMsgs\<close>,
  \<^verbatim>\<open>GDLineMsg\<close> and of the methods of \<^verbatim>\<open>GoDebugInstance\<close> that work on them.

  Conventions.
  \<^item> Go's \<^verbatim>\<open>int\<close> is modelled by \<^typ>\<open>int\<close>: the counters start at \<open>-1\<close> and grow by one per
    event, so the 64-bit range is never left; \<^verbatim>\<open>len\<close> is \<^const>\<open>length\<close>, a \<^typ>\<open>nat\<close>, and is
    cast with \<^const>\<open>int\<close> where the code compares it with an \<^verbatim>\<open>int\<close>.
  \<^item> A function that can panic at run time (index out of range, nil dereference, negative
    \<^verbatim>\<open>make\<close> length) returns an \<^typ>\<open>'a option\<close>; \<^const>\<open>None\<close> is the panic.
  \<^item> A Go \<^verbatim>\<open>error\<close> result is an \<open>error option\<close> (\<^const>\<open>None\<close> is \<^verbatim>\<open>nil\<close>) next to the state
    the call leaves behind.
  \<^item> A pointer that may be \<^verbatim>\<open>nil\<close> is an option; a pointer that is never \<^verbatim>\<open>nil\<close> and has one
    owner is the value it points to, and a method that mutates through it returns the new value.
\<close>

subsection \<open>Data\<close>

text \<open>\<^verbatim>\<open>drawer4.Annotation\<close>: the two fields this file writes.\<close>

record Annotation =
  ann_Offset :: int
  ann_Bytes :: string

text \<open>\<^verbatim>\<open>debug.LineMsg\<close>; the item is an opaque payload of any type \<open>'i\<close>.\<close>

record 'i LineMsg =
  FileIndex :: int
  DebugIndex :: int
  Offset :: int
  Item :: 'i

text \<open>
  \<^verbatim>\<open>debug.AnnotatorFileData\<close>, the element of \<^verbatim>\<open>debug.FilesDataMsg.Data\<close>. The slice holds
  pointers; the descriptors of a message are taken to be there (none is \<^verbatim>\<open>nil\<close>), and so are
  the message itself and the \<^verbatim>\<open>debug.LineMsg\<close> of an event.
\<close>

record AnnotatorFileData =
  afd_FileIndex :: int
  DebugLen :: int
  Filename :: string
  FileSize :: int
  FileHash :: string

record 'i GDLineMsg =
  arrivalIndex :: int
  dbgLineMsg :: "'i LineMsg"
  itemBytes :: "string option"
  cachedAnn :: "Annotation option"

record 'i GDLineMsgs =
  lineMsgs :: "'i GDLineMsg list"

text \<open>
  \<^verbatim>\<open>AnnEntries\<close> holds pointers to the cached annotations of the messages. Every entry is
  rewritten by each run of \<^verbatim>\<open>findSelectedAndUpdateAnnEntries\<close> and nothing else writes an
  annotation, so the entry is modelled by the annotation's value at the end of that run.
\<close>

record 'i GDFileMsgs =
  LinesMsgs :: "'i GDLineMsgs list"
  AnnEntries :: "Annotation option list"
  AnnEntriesLMIndex :: "int list"

record Selected =
  sel_arrivalIndex :: int
  sel_fileIndex :: int
  sel_lineIndex :: int
  sel_lineStepIndex :: int
  sel_edited :: bool

text \<open>
  \<^verbatim>\<open>GDDataIndex\<close>. Of the editor only \<^verbatim>\<open>ed.FsCaseInsensitive\<close> is read; \<^verbatim>\<open>Files\<close> is a slice of
  pointers made by \<^verbatim>\<open>make\<close>, so an entry can be \<^verbatim>\<open>nil\<close>.
\<close>

record 'i GDDataIndex =
  FsCaseInsensitive :: bool
  filesIndexM :: "string \<rightharpoonup> int"
  lastArrivalIndex :: int
  selected :: Selected
  Afds :: "AnnotatorFileData list"
  Files :: "'i GDFileMsgs option list"

datatype error =
  BadFileIndexAtInit int int
  | BadFileIndex int int
  | BadDebugIndex int int
  | DataIndexIsNil
  | RequestFileSetPositionsFailed string
  | RequestStartFailed string
  | UnhandledString string
  | UnexpectedMsg
  | ReceivedError string

text \<open>The errors that report a file or line index out of range.\<close>

fun isIndexError :: "error \<Rightarrow> bool" where
  "isIndexError (BadFileIndexAtInit i n) = True"
| "isIndexError (BadFileIndex i n) = True"
| "isIndexError (BadDebugIndex i n) = True"
| "isIndexError e = False"

subsection \<open>Slices\<close>

text \<open>Reading and writing a slice element panics out of range (also for a negative index).\<close>

definition at :: "'a list \<Rightarrow> int \<Rightarrow> 'a option" where
  "at xs i = (if 0 \<le> i \<and> i < int (length xs) then Some (xs ! nat i) else None)"

definition setAt :: "'a list \<Rightarrow> int \<Rightarrow> 'a \<Rightarrow> 'a list option" where
  "setAt xs i v = (if 0 \<le> i \<and> i < int (length xs) then Some (xs[nat i := v]) else None)"

text \<open>\<^verbatim>\<open>make([]T, n)\<close> panics for a negative \<open>n\<close>.\<close>

definition make_slice :: "'a \<Rightarrow> int \<Rightarrow> 'a list option" where
  "make_slice zero n = (if n < 0 then None else Some (replicate (nat n) zero))"

subsection \<open>The event store\<close>

definition NewGDFileMsgs :: "int \<Rightarrow> 'i GDFileMsgs option" where
  "NewGDFileMsgs n =
     (case make_slice \<lparr>lineMsgs = []\<rparr> n of None \<Rightarrow> None | Some ls \<Rightarrow>
      (case make_slice None n of None \<Rightarrow> None | Some es \<Rightarrow>
      (case make_slice 0 n of None \<Rightarrow> None | Some ks \<Rightarrow>
         Some \<lparr>LinesMsgs = ls, AnnEntries = es, AnnEntriesLMIndex = ks\<rparr>)))"

text \<open>
  \<^verbatim>\<open>build\<close>, \<^verbatim>\<open>annotation\<close> and \<^verbatim>\<open>emptyAnnotation\<close> return the annotation and the message with its
  caches filled. \<open>sfy\<close> is \<^verbatim>\<open>godebug.StringifyItem\<close>, a pure function of another package.
\<close>

definition build :: "'i GDLineMsg \<Rightarrow> Annotation \<times> 'i GDLineMsg" where
  "build msg =
     (case cachedAnn msg of
        None \<Rightarrow>
          (let a = \<lparr>ann_Offset = Offset (dbgLineMsg msg), ann_Bytes = []\<rparr>
           in (a, msg\<lparr>cachedAnn := Some a\<rparr>))
      | Some a \<Rightarrow> (a, msg))"

definition annotation :: "('i \<Rightarrow> string) \<Rightarrow> 'i GDLineMsg \<Rightarrow> Annotation \<times> 'i GDLineMsg" where
  "annotation sfy msg =
     (let (ann, m1) = build msg;
          m2 = (case itemBytes m1 of
                  None \<Rightarrow> m1\<lparr>itemBytes := Some (sfy (Item (dbgLineMsg m1)))\<rparr>
                | Some b \<Rightarrow> m1);
          ann' = ann\<lparr>ann_Bytes := (case itemBytes m2 of None \<Rightarrow> [] | Some b \<Rightarrow> b)\<rparr>
      in (ann', m2\<lparr>cachedAnn := Some ann'\<rparr>))"

definition emptyAnnotation :: "'i GDLineMsg \<Rightarrow> Annotation \<times> 'i GDLineMsg" where
  "emptyAnnotation msg =
     (let (ann, m1) = build msg;
          ann' = ann\<lparr>ann_Bytes := '' ''\<rparr>
      in (ann', m1\<lparr>cachedAnn := Some ann'\<rparr>))"

subsection \<open>\<^verbatim>\<open>sort.Search\<close>\<close>

text \<open>
  The standard library's binary search: \<^verbatim>\<open>i, j := 0, n\<close>, and while \<^verbatim>\<open>i < j\<close> the midpoint
  \<^verbatim>\<open>h := int(uint(i+j) >> 1)\<close> replaces \<open>i\<close> by \<open>h + 1\<close> when \<open>f h\<close> is false and \<open>j\<close> by \<open>h\<close>
  otherwise. Indices are between 0 and \<open>n\<close>, so they are naturals here.
\<close>

function Search_loop :: "(nat \<Rightarrow> bool) \<Rightarrow> nat \<Rightarrow> nat \<Rightarrow> nat" where
  "Search_loop f i j =
     (if i < j then
        (let h = (i + j) div 2
         in if \<not> f h then Search_loop f (h + 1) j else Search_loop f i h)
      else i)"
  by pat_completeness auto
termination
  by (relation "measure (\<lambda>(f, i, j). j - i)") auto

declare Search_loop.simps [simp del]

definition Search :: "nat \<Rightarrow> (nat \<Rightarrow> bool) \<Rightarrow> nat" where
  "Search n f = Search_loop f 0 n"

subsection \<open>\<^verbatim>\<open>findSelectedAndUpdateAnnEntries\<close>\<close>

text \<open>
  One pass of the loop body for \<open>line\<close>; the loop state is the file together with
  \<^verbatim>\<open>selLine\<close>, \<^verbatim>\<open>selLineStep\<close> and \<^verbatim>\<open>found\<close>. The closure given to \<^verbatim>\<open>sort.Search\<close> reads
  \<^verbatim>\<open>lm.lineMsgs[i]\<close> only for \<open>i\<close> below the length.
\<close>

definition searchK :: "int \<Rightarrow> 'i GDLineMsgs \<Rightarrow> int" where
  "searchK arrIdx lm =
     int (Search (length (lineMsgs lm)) (\<lambda>i. arrivalIndex (lineMsgs lm ! i) > arrIdx)) - 1"

definition findBody ::
  "('i \<Rightarrow> string) \<Rightarrow> int \<Rightarrow> nat \<Rightarrow> 'i GDFileMsgs \<times> int \<times> int \<times> bool
     \<Rightarrow> ('i GDFileMsgs \<times> int \<times> int \<times> bool) option" where
  "findBody sfy arrIdx line st =
     (case st of (file, selLine, selLineStep, found) \<Rightarrow>
      (case at (LinesMsgs file) (int line) of None \<Rightarrow> None | Some lm \<Rightarrow>
       let k = searchK arrIdx lm in
       (case
          (if k < 0 then
             (case setAt (AnnEntries file) (int line) None of None \<Rightarrow> None | Some es \<Rightarrow>
                if length (lineMsgs lm) > 0 then
                  (let (ann, m) = emptyAnnotation (lineMsgs lm ! 0);
                       lm' = lm\<lparr>lineMsgs := (lineMsgs lm)[0 := m]\<rparr>
                   in Some (file\<lparr>LinesMsgs := (LinesMsgs file)[line := lm'],
                                  AnnEntries := es[line := Some ann]\<rparr>,
                            selLine, selLineStep, found))
                else Some (file\<lparr>AnnEntries := es\<rparr>, selLine, selLineStep, found))
           else
             (case at (lineMsgs lm) k of None \<Rightarrow> None | Some msg \<Rightarrow>
              let (ann, m) = annotation sfy msg;
                  lm' = lm\<lparr>lineMsgs := (lineMsgs lm)[nat k := m]\<rparr>
              in (case setAt (AnnEntries file) (int line) (Some ann) of None \<Rightarrow> None
                  | Some es \<Rightarrow>
                    let file' = file\<lparr>LinesMsgs := (LinesMsgs file)[line := lm'],
                                      AnnEntries := es\<rparr>
                    in if arrivalIndex m = arrIdx
                       then Some (file', int line, k, True)
                       else Some (file', selLine, selLineStep, found))))
        of None \<Rightarrow> None
        | Some (file1, selLine1, selLineStep1, found1) \<Rightarrow>
          (case setAt (AnnEntriesLMIndex file1) (int line) k of None \<Rightarrow> None
           | Some ks \<Rightarrow>
             Some (file1\<lparr>AnnEntriesLMIndex := ks\<rparr>, selLine1, selLineStep1, found1)))))"

fun findLoop ::
  "('i \<Rightarrow> string) \<Rightarrow> int \<Rightarrow> nat list \<Rightarrow> 'i GDFileMsgs \<times> int \<times> int \<times> bool
     \<Rightarrow> ('i GDFileMsgs \<times> int \<times> int \<times> bool) option" where
  "findLoop sfy arrIdx [] st = Some st"
| "findLoop sfy arrIdx (line # ls) st =
     (case findBody sfy arrIdx line st of None \<Rightarrow> None
      | Some st' \<Rightarrow> findLoop sfy arrIdx ls st')"

text \<open>
  \<^verbatim>\<open>for line, lm := range file.LinesMsgs\<close> runs over the indices below the length the slice
  has when the loop starts. A \<^verbatim>\<open>nil\<close> receiver panics at \<^verbatim>\<open>file.LinesMsgs\<close>.
\<close>

definition findSelectedAndUpdateAnnEntries ::
  "('i \<Rightarrow> string) \<Rightarrow> 'i GDFileMsgs \<Rightarrow> int \<Rightarrow> ('i GDFileMsgs \<times> int \<times> int \<times> bool) option" where
  "findSelectedAndUpdateAnnEntries sfy file arrIdx =
     findLoop sfy arrIdx [0..<length (LinesMsgs file)] (file, 0, 0, False)"

subsection \<open>The trace index\<close>

text \<open>\<open>toLower\<close> is \<^verbatim>\<open>strings.ToLower\<close>.\<close>

definition FilesIndexKey :: "(string \<Rightarrow> string) \<Rightarrow> 'i GDDataIndex \<Rightarrow> string \<Rightarrow> string" where
  "FilesIndexKey toLower di name = (if FsCaseInsensitive di then toLower name else name)"

text \<open>The pair \<^verbatim>\<open>(v, ok)\<close> of the map lookup is an option.\<close>

definition FilesIndex :: "(string \<Rightarrow> string) \<Rightarrow> 'i GDDataIndex \<Rightarrow> string \<Rightarrow> int option" where
  "FilesIndex toLower di name = filesIndexM di (FilesIndexKey toLower di name)"

text \<open>
  The loop of \<^verbatim>\<open>clearMsgs\<close>: every file is overwritten by a fresh one with as many line
  slots; a \<^verbatim>\<open>nil\<close> entry panics at \<^verbatim>\<open>f.LinesMsgs\<close>.
\<close>

fun clearFiles :: "'i GDFileMsgs option list \<Rightarrow> 'i GDFileMsgs option list option" where
  "clearFiles [] = Some []"
| "clearFiles (f # fs) =
     (case f of None \<Rightarrow> None | Some file \<Rightarrow>
      (case NewGDFileMsgs (int (length (LinesMsgs file))) of None \<Rightarrow> None | Some u \<Rightarrow>
      (case clearFiles fs of None \<Rightarrow> None | Some fs' \<Rightarrow> Some (Some u # fs'))))"

definition clearMsgs :: "'i GDDataIndex \<Rightarrow> 'i GDDataIndex option" where
  "clearMsgs di =
     (case clearFiles (Files di) of None \<Rightarrow> None | Some fs \<Rightarrow>
        (let di1 = di\<lparr>Files := fs\<rparr>;
             di2 = di1\<lparr>lastArrivalIndex := - 1\<rparr>
         in Some (di2\<lparr>selected := (selected di2)\<lparr>sel_arrivalIndex := lastArrivalIndex di2\<rparr>\<rparr>)))"

definition NewGDDataIndex :: "bool \<Rightarrow> 'i GDDataIndex option" where
  "NewGDDataIndex fsCaseInsensitive =
     clearMsgs \<lparr>FsCaseInsensitive = fsCaseInsensitive, filesIndexM = Map.empty,
                lastArrivalIndex = 0,
                selected = \<lparr>sel_arrivalIndex = 0, sel_fileIndex = 0, sel_lineIndex = 0,
                            sel_lineStepIndex = 0, sel_edited = False\<rparr>,
                Afds = [], Files = []\<rparr>"

text \<open>The second loop of \<^verbatim>\<open>handleFilesDataMsg\<close>, over the descriptors.\<close>

fun initFiles ::
  "AnnotatorFileData list \<Rightarrow> 'i GDFileMsgs option list
     \<Rightarrow> ('i GDFileMsgs option list \<times> error option) option" where
  "initFiles [] files = Some (files, None)"
| "initFiles (afd # afds) files =
     (if afd_FileIndex afd \<ge> int (length files)
      then Some (files, Some (BadFileIndexAtInit (afd_FileIndex afd) (int (length files))))
      else (case NewGDFileMsgs (DebugLen afd) of None \<Rightarrow> None | Some u \<Rightarrow>
            (case setAt files (afd_FileIndex afd) (Some u) of None \<Rightarrow> None
             | Some files' \<Rightarrow> initFiles afds files')))"

definition handleFilesDataMsg ::
  "(string \<Rightarrow> string) \<Rightarrow> 'i GDDataIndex \<Rightarrow> AnnotatorFileData list
     \<Rightarrow> ('i GDDataIndex \<times> error option) option" where
  "handleFilesDataMsg toLower di fdm =
     (let di1 = di\<lparr>Afds := fdm\<rparr>;
          di2 = di1\<lparr>filesIndexM :=
                  fold (\<lambda>afd m. m(FilesIndexKey toLower di1 (Filename afd) \<mapsto> afd_FileIndex afd))
                    (Afds di1) Map.empty\<rparr>;
          di3 = di2\<lparr>Files := replicate (length (Afds di2)) None\<rparr>
      in (case initFiles (Afds di3) (Files di3) of None \<Rightarrow> None
          | Some (files, err) \<Rightarrow> Some (di3\<lparr>Files := files\<rparr>, err)))"

definition handleLineMsg ::
  "'i GDDataIndex \<Rightarrow> 'i LineMsg \<Rightarrow> ('i GDDataIndex \<times> error option) option" where
  "handleLineMsg di u =
     (let l1 = int (length (Files di)) in
      if FileIndex u \<ge> l1 then Some (di, Some (BadFileIndex (FileIndex u) l1))
      else
        (case at (Files di) (FileIndex u) of None \<Rightarrow> None | Some None \<Rightarrow> None
         | Some (Some file) \<Rightarrow>
           let l2 = int (length (LinesMsgs file)) in
           if DebugIndex u \<ge> l2 then Some (di, Some (BadDebugIndex (DebugIndex u) l2))
           else
             (let di1 = di\<lparr>lastArrivalIndex := lastArrivalIndex di + 1\<rparr>;
                  lm = \<lparr>arrivalIndex = lastArrivalIndex di1, dbgLineMsg = u,
                        itemBytes = None, cachedAnn = None\<rparr>
              in (case at (LinesMsgs file) (DebugIndex u) of None \<Rightarrow> None
                  | Some w \<Rightarrow>
                    let w' = w\<lparr>lineMsgs := lineMsgs w @ [lm]\<rparr>;
                        file' = file\<lparr>LinesMsgs := (LinesMsgs file)[nat (DebugIndex u) := w']\<rparr>;
                        di2 = di1\<lparr>Files := (Files di1)[nat (FileIndex u) := Some file']\<rparr>
                    in if sel_arrivalIndex (selected di2) = lastArrivalIndex di2 - 1
                       then Some (di2\<lparr>selected :=
                                    (selected di2)\<lparr>sel_arrivalIndex := lastArrivalIndex di2\<rparr>\<rparr>,
                                  None)
                       else Some (di2, None)))))"

subsection \<open>Selection gestures\<close>

definition selectNext :: "'i GDDataIndex \<Rightarrow> 'i GDDataIndex \<times> bool" where
  "selectNext di =
     (if sel_arrivalIndex (selected di) < lastArrivalIndex di
      then (di\<lparr>selected := (selected di)\<lparr>sel_arrivalIndex := sel_arrivalIndex (selected di) + 1\<rparr>\<rparr>,
            True)
      else (di, False))"

definition selectPrev :: "'i GDDataIndex \<Rightarrow> 'i GDDataIndex \<times> bool" where
  "selectPrev di =
     (if sel_arrivalIndex (selected di) > 0
      then (di\<lparr>selected := (selected di)\<lparr>sel_arrivalIndex := sel_arrivalIndex (selected di) - 1\<rparr>\<rparr>,
            True)
      else (di, False))"

definition selectFirst :: "'i GDDataIndex \<Rightarrow> 'i GDDataIndex \<times> bool" where
  "selectFirst di = (di\<lparr>selected := (selected di)\<lparr>sel_arrivalIndex := 0\<rparr>\<rparr>, True)"

definition selectLast :: "'i GDDataIndex \<Rightarrow> 'i GDDataIndex \<times> bool" where
  "selectLast di =
     (if sel_arrivalIndex (selected di) < lastArrivalIndex di
      then (di\<lparr>selected := (selected di)\<lparr>sel_arrivalIndex := lastArrivalIndex di\<rparr>\<rparr>, True)
      else (di, True))"

text \<open>
  \<^verbatim>\<open>ui.RootSelAnnType\<close>; \<open>RootSelAnnTypeOther\<close> stands for any value the switch sends to
  \<^verbatim>\<open>default\<close>.
\<close>

datatype RootSelAnnType =
  RootSelAnnTypeFirst | RootSelAnnTypeLast | RootSelAnnTypePrev | RootSelAnnTypeNext
  | RootSelAnnTypeClear | RootSelAnnTypeOther

text \<open>
  \<^verbatim>\<open>gdi.data.dataIndex\<close> is an option: \<^verbatim>\<open>dataLock\<close> fails on \<^verbatim>\<open>nil\<close>. The methods of
  \<^verbatim>\<open>GoDebugInstance\<close> take and return it.
\<close>

definition selectAnnotation2 ::
  "'i GDDataIndex option \<Rightarrow> RootSelAnnType \<Rightarrow> ('i GDDataIndex option \<times> bool) option" where
  "selectAnnotation2 gdi typ =
     (case gdi of None \<Rightarrow> Some (None, False)
      | Some di \<Rightarrow>
        (case typ of
           RootSelAnnTypeFirst \<Rightarrow> (let (di', b) = selectFirst di in Some (Some di', b))
         | RootSelAnnTypeLast \<Rightarrow> (let (di', b) = selectLast di in Some (Some di', b))
         | RootSelAnnTypePrev \<Rightarrow> (let (di', b) = selectPrev di in Some (Some di', b))
         | RootSelAnnTypeNext \<Rightarrow> (let (di', b) = selectNext di in Some (Some di', b))
         | RootSelAnnTypeClear \<Rightarrow>
             (case clearMsgs di of None \<Rightarrow> None | Some di' \<Rightarrow> Some (Some di', True))
         | RootSelAnnTypeOther \<Rightarrow> Some (Some di, False)))"

datatype TASelAnnType =
  TASelAnnTypeCurrent | TASelAnnTypeCurrentPrev | TASelAnnTypeCurrentNext
  | TASelAnnTypePrint | TASelAnnTypePrintAll

text \<open>
  \<^verbatim>\<open>currentAnnotationFileLine\<close>: the outer option is the panic, the inner one the \<^verbatim>\<open>ok\<close>
  result; \<open>name\<close> is \<^verbatim>\<open>erow.Info.Name()\<close>.
\<close>

definition currentAnnotationFileLine ::
  "(string \<Rightarrow> string) \<Rightarrow> 'i GDDataIndex \<Rightarrow> string \<Rightarrow> int
     \<Rightarrow> ('i GDFileMsgs \<times> 'i GDLineMsgs) option option" where
  "currentAnnotationFileLine toLower di name annIndex =
     (case FilesIndex toLower di name of None \<Rightarrow> Some None
      | Some fi \<Rightarrow>
        (case at (Files di) fi of None \<Rightarrow> None | Some None \<Rightarrow> None
         | Some (Some file) \<Rightarrow>
           if annIndex < 0 \<or> annIndex \<ge> int (length (AnnEntriesLMIndex file)) then Some None
           else (case at (LinesMsgs file) annIndex of None \<Rightarrow> None
                 | Some line \<Rightarrow> Some (Some (file, line)))))"

text \<open>
  \<^verbatim>\<open>selectCurrent\<close>; the \<^verbatim>\<open>default\<close> branch of its switch panics, and so does
  \<^verbatim>\<open>line.lineMsgs[k]\<close> out of range.
\<close>

definition selectCurrent ::
  "(string \<Rightarrow> string) \<Rightarrow> 'i GDDataIndex \<Rightarrow> string \<Rightarrow> int \<Rightarrow> int \<Rightarrow> TASelAnnType
     \<Rightarrow> ('i GDDataIndex \<times> bool) option" where
  "selectCurrent toLower di name annIndex offset typ =
     (case currentAnnotationFileLine toLower di name annIndex of None \<Rightarrow> None
      | Some None \<Rightarrow> Some (di, False)
      | Some (Some (file, line)) \<Rightarrow>
        (case at (AnnEntriesLMIndex file) annIndex of None \<Rightarrow> None
         | Some k0 \<Rightarrow>
           let k = (if k0 < 0 then 0 else k0);
               sel = (\<lambda>k'. case at (lineMsgs line) k' of None \<Rightarrow> None
                       | Some msg \<Rightarrow>
                         Some (di\<lparr>selected :=
                                 (selected di)\<lparr>sel_arrivalIndex := arrivalIndex msg\<rparr>\<rparr>, True))
           in (case typ of
                 TASelAnnTypeCurrent \<Rightarrow> sel k
               | TASelAnnTypeCurrentPrev \<Rightarrow> if k = 0 then Some (di, False) else sel (k - 1)
               | TASelAnnTypeCurrentNext \<Rightarrow>
                   if k \<ge> int (length (lineMsgs line)) - 1 then Some (di, False)
                   else sel (k + 1)
               | TASelAnnTypePrint \<Rightarrow> None
               | TASelAnnTypePrintAll \<Rightarrow> None)))"

subsection \<open>Ingestion\<close>

text \<open>
  The values the loop can receive on \<^verbatim>\<open>cmd.Client.Messages\<close>: \<open>MsgOther\<close> stands for a value of
  any type that the type switch of \<^verbatim>\<open>handleMsg\<close> sends to \<^verbatim>\<open>default\<close>.
\<close>

datatype 'i msg =
  MsgError string
  | MsgString string
  | MsgFilesData "AnnotatorFileData list"
  | MsgLine "'i LineMsg"
  | MsgLines "'i LineMsg list"
  | MsgOther

text \<open>
  \<^verbatim>\<open>godebug.Cmd\<close> belongs to another package: the record gives what its two requests return
  (\<^const>\<open>None\<close> is \<^verbatim>\<open>nil\<close>), and a request that was issued is an entry of the trace.
\<close>

record Cmd =
  RequestFileSetPositions :: "string option"
  RequestStart :: "string option"

datatype trace_entry =
  WriteError error
  | UpdateUI
  | SentRequestFileSetPositions
  | SentRequestStart

definition gdi_handleFilesDataMsg ::
  "(string \<Rightarrow> string) \<Rightarrow> 'i GDDataIndex option \<Rightarrow> AnnotatorFileData list
     \<Rightarrow> ('i GDDataIndex option \<times> error option) option" where
  "gdi_handleFilesDataMsg toLower gdi fdm =
     (case gdi of None \<Rightarrow> Some (None, Some DataIndexIsNil)
      | Some di \<Rightarrow>
        (case handleFilesDataMsg toLower di fdm of None \<Rightarrow> None
         | Some (di', err) \<Rightarrow> Some (Some di', err)))"

definition gdi_handleLineMsg ::
  "'i GDDataIndex option \<Rightarrow> 'i LineMsg \<Rightarrow> ('i GDDataIndex option \<times> error option) option" where
  "gdi_handleLineMsg gdi u =
     (case gdi of None \<Rightarrow> Some (None, Some DataIndexIsNil)
      | Some di \<Rightarrow>
        (case handleLineMsg di u of None \<Rightarrow> None
         | Some (di', err) \<Rightarrow> Some (Some di', err)))"

text \<open>The loop of \<^verbatim>\<open>handleLineMsgs\<close> returns at the first error.\<close>

fun handleLineMsgs_loop ::
  "'i GDDataIndex \<Rightarrow> 'i LineMsg list \<Rightarrow> ('i GDDataIndex \<times> error option) option" where
  "handleLineMsgs_loop di [] = Some (di, None)"
| "handleLineMsgs_loop di (u # us) =
     (case handleLineMsg di u of None \<Rightarrow> None
      | Some (di', Some err) \<Rightarrow> Some (di', Some err)
      | Some (di', None) \<Rightarrow> handleLineMsgs_loop di' us)"

definition gdi_handleLineMsgs ::
  "'i GDDataIndex option \<Rightarrow> 'i LineMsg list \<Rightarrow> ('i GDDataIndex option \<times> error option) option" where
  "gdi_handleLineMsgs gdi us =
     (case gdi of None \<Rightarrow> Some (None, Some DataIndexIsNil)
      | Some di \<Rightarrow>
        (case handleLineMsgs_loop di us of None \<Rightarrow> None
         | Some (di', err) \<Rightarrow> Some (Some di', err)))"

text \<open>\<^verbatim>\<open>handleMsg\<close> returns the index, the error and the requests it sent.\<close>

definition handleMsg ::
  "(string \<Rightarrow> string) \<Rightarrow> Cmd \<Rightarrow> 'i GDDataIndex option \<Rightarrow> 'i msg
     \<Rightarrow> ('i GDDataIndex option \<times> error option \<times> trace_entry list) option" where
  "handleMsg toLower cmd gdi m =
     (case m of
        MsgError t \<Rightarrow> Some (gdi, Some (ReceivedError t), [])
      | MsgString t \<Rightarrow>
          if t = ''connected'' then
            (case RequestFileSetPositions cmd of
               Some e \<Rightarrow>
                 Some (gdi, Some (RequestFileSetPositionsFailed e), [SentRequestFileSetPositions])
             | None \<Rightarrow> Some (gdi, None, [SentRequestFileSetPositions]))
          else Some (gdi, Some (UnhandledString t), [])
      | MsgFilesData t \<Rightarrow>
          (case gdi_handleFilesDataMsg toLower gdi t of None \<Rightarrow> None
           | Some (gdi', Some err) \<Rightarrow> Some (gdi', Some err, [])
           | Some (gdi', None) \<Rightarrow>
             (case RequestStart cmd of
                Some e \<Rightarrow> Some (gdi', Some (RequestStartFailed e), [SentRequestStart])
              | None \<Rightarrow> Some (gdi', None, [SentRequestStart])))
      | MsgLine t \<Rightarrow>
          (case gdi_handleLineMsg gdi t of None \<Rightarrow> None
           | Some (gdi', err) \<Rightarrow> Some (gdi', err, []))
      | MsgLines t \<Rightarrow>
          (case gdi_handleLineMsgs gdi t of None \<Rightarrow> None
           | Some (gdi', err) \<Rightarrow> Some (gdi', err, []))
      | MsgOther \<Rightarrow> Some (gdi, Some UnexpectedMsg, []))"

text \<open>
  What one \<^verbatim>\<open>select\<close> of \<^verbatim>\<open>clientMsgsLoop\<close> can take: the context is done, a message is
  received, the message channel is closed, the timer channel \<^verbatim>\<open>updatec\<close> delivers. The loop
  is run on a schedule, the list of what its selects take, in order; the moments at which
  they happen are left out.
\<close>

datatype 'i selected_case =
  CtxDone
  | Received "'i msg"
  | ChannelClosed
  | TimerFired

text \<open>
  The loop's state: the index, whether \<^verbatim>\<open>updatec\<close> is not \<^verbatim>\<open>nil\<close>, and the trace of what was
  written to \<open>w\<close>, requested of \<open>cmd\<close> and asked of the user interface, oldest first.
\<close>

record 'i loop_state =
  ls_gdi :: "'i GDDataIndex option"
  ls_updatec :: bool
  ls_trace :: "trace_entry list"

text \<open>The closure \<^verbatim>\<open>updateUI\<close> of \<^verbatim>\<open>clientMsgsLoop\<close>.\<close>

definition loop_updateUI :: "'i loop_state \<Rightarrow> 'i loop_state" where
  "loop_updateUI s =
     (if ls_updatec s then s\<lparr>ls_updatec := False, ls_trace := ls_trace s @ [UpdateUI]\<rparr> else s)"

text \<open>
  The result says whether the loop has returned (\<^const>\<open>True\<close>) or still waits in its
  \<^verbatim>\<open>select\<close> when the schedule is used up. A \<^verbatim>\<open>nil\<close> channel never delivers, so
  \<open>TimerFired\<close> with \<^verbatim>\<open>updatec\<close> \<^verbatim>\<open>nil\<close> is not a step of the loop and is passed over.
\<close>

fun clientMsgsLoop ::
  "(string \<Rightarrow> string) \<Rightarrow> Cmd \<Rightarrow> 'i selected_case list \<Rightarrow> 'i loop_state
     \<Rightarrow> ('i loop_state \<times> bool) option" where
  "clientMsgsLoop toLower cmd [] s = Some (s, False)"
| "clientMsgsLoop toLower cmd (CtxDone # sched) s = Some (loop_updateUI s, True)"
| "clientMsgsLoop toLower cmd (ChannelClosed # sched) s = Some (loop_updateUI s, True)"
| "clientMsgsLoop toLower cmd (Received m # sched) s =
     (case handleMsg toLower cmd (ls_gdi s) m of None \<Rightarrow> None
      | Some (gdi', err, reqs) \<Rightarrow>
        let s1 = s\<lparr>ls_gdi := gdi', ls_trace := ls_trace s @ reqs\<rparr>;
            s2 = (case err of None \<Rightarrow> s1
                  | Some e \<Rightarrow> s1\<lparr>ls_trace := ls_trace s1 @ [WriteError e]\<rparr>);
            s3 = (if \<not> ls_updatec s2 then s2\<lparr>ls_updatec := True\<rparr> else s2)
        in clientMsgsLoop toLower cmd sched s3)"
| "clientMsgsLoop toLower cmd (TimerFired # sched) s =
     clientMsgsLoop toLower cmd sched (loop_updateUI s)"

subsection \<open>Refreshing the user interface\<close>

text \<open>
  \<^verbatim>\<open>ERowInfo\<close> belongs to the editor: its name, the rows that show it (numbered), and the
  answer of \<^verbatim>\<open>info.EqualToBytesHash(size, hash)\<close> for its present content.
\<close>

record ERowInfo =
  info_Name :: string
  info_ERows :: "nat list"
  info_EqualToBytesHash :: "int \<Rightarrow> string \<Rightarrow> bool"

text \<open>The calls made on the editor, in order.\<close>

datatype ui_call =
  UpdateAnnotationsRowState string bool
  | UpdateAnnotationsEditedRowState string bool
  | SetAnnotations nat bool int "Annotation option list"
  | Errorf_selection_at_edited_row string int
  | OpenFileERow string int

definition clearDrawerAnn :: "ERowInfo \<Rightarrow> ui_call list" where
  "clearDrawerAnn info = map (\<lambda>erow. SetAnnotations erow False 0 []) (info_ERows info)"

definition updateInfoUI ::
  "(string \<Rightarrow> string) \<Rightarrow> ('i \<Rightarrow> string) \<Rightarrow> 'i GDDataIndex \<Rightarrow> ERowInfo
     \<Rightarrow> ('i GDDataIndex \<times> ui_call list) option" where
  "updateInfoUI toLower sfy di info =
     (case FilesIndex toLower di (info_Name info) of
        None \<Rightarrow>
          Some (di, [UpdateAnnotationsRowState (info_Name info) False,
                     UpdateAnnotationsEditedRowState (info_Name info) False]
                    @ clearDrawerAnn info)
      | Some findex \<Rightarrow>
        (case at (Files di) findex of None \<Rightarrow> None | Some None \<Rightarrow> None
         | Some (Some file) \<Rightarrow>
           (case findSelectedAndUpdateAnnEntries sfy file (sel_arrivalIndex (selected di)) of
              None \<Rightarrow> None
            | Some (file', selLine, selLineStep, selFound) \<Rightarrow>
              let di1 = di\<lparr>Files := (Files di)[nat findex := Some file']\<rparr>;
                  di2 = (if selFound
                         then di1\<lparr>selected := (selected di1)\<lparr>sel_edited := False,
                                     sel_fileIndex := findex, sel_lineIndex := selLine,
                                     sel_lineStepIndex := selLineStep\<rparr>\<rparr>
                         else di1)
              in (case at (Afds di2) findex of None \<Rightarrow> None
                  | Some afd \<Rightarrow>
                    let edited = \<not> info_EqualToBytesHash info (FileSize afd) (FileHash afd)
                    in if edited then
                         (let di3 = (if selFound
                                     then di2\<lparr>selected := (selected di2)\<lparr>sel_edited := True\<rparr>\<rparr>
                                     else di2)
                          in Some (di3, [UpdateAnnotationsRowState (info_Name info) True,
                                         UpdateAnnotationsEditedRowState (info_Name info) True]
                                        @ clearDrawerAnn info))
                       else
                         Some (di2, [UpdateAnnotationsRowState (info_Name info) True,
                                     UpdateAnnotationsEditedRowState (info_Name info) False]
                                    @ map (\<lambda>erow. SetAnnotations erow True selLine (AnnEntries file'))
                                        (info_ERows info))))))"

text \<open>\<^verbatim>\<open>updateUI2\<close>, over \<^verbatim>\<open>gdi.ed.ERowInfos()\<close>.\<close>

fun updateUI2 ::
  "(string \<Rightarrow> string) \<Rightarrow> ('i \<Rightarrow> string) \<Rightarrow> 'i GDDataIndex \<Rightarrow> ERowInfo list
     \<Rightarrow> ('i GDDataIndex \<times> ui_call list) option" where
  "updateUI2 toLower sfy di [] = Some (di, [])"
| "updateUI2 toLower sfy di (info # infos) =
     (case updateInfoUI toLower sfy di info of None \<Rightarrow> None
      | Some (di1, calls1) \<Rightarrow>
        (case updateUI2 toLower sfy di1 infos of None \<Rightarrow> None
         | Some (di2, calls2) \<Rightarrow> Some (di2, calls1 @ calls2)))"

definition showSelectedLine :: "'i GDDataIndex \<Rightarrow> ui_call list option" where
  "showSelectedLine di =
     (if sel_arrivalIndex (selected di) < 0 then Some []
      else
        (case at (Afds di) (sel_fileIndex (selected di)) of None \<Rightarrow> None
         | Some afd \<Rightarrow>
           if sel_edited (selected di)
           then Some [Errorf_selection_at_edited_row (Filename afd)
                        (sel_arrivalIndex (selected di))]
           else
             (case at (Files di) (sel_fileIndex (selected di)) of None \<Rightarrow> None
              | Some None \<Rightarrow> None
              | Some (Some file) \<Rightarrow>
                (case at (LinesMsgs file) (sel_lineIndex (selected di)) of None \<Rightarrow> None
                 | Some lm \<Rightarrow>
                   if sel_lineStepIndex (selected di) \<ge> int (length (lineMsgs lm)) then Some []
                   else
                     (case at (lineMsgs lm) (sel_lineStepIndex (selected di)) of None \<Rightarrow> None
                      | Some m \<Rightarrow>
                        Some [OpenFileERow (Filename afd) (Offset (dbgLineMsg m))])))))"

text \<open>The body of \<^verbatim>\<open>updateUIShowLine\<close> once the read lock is held.\<close>

definition updateUIShowLine ::
  "(string \<Rightarrow> string) \<Rightarrow> ('i \<Rightarrow> string) \<Rightarrow> 'i GDDataIndex \<Rightarrow> ERowInfo list
     \<Rightarrow> ('i GDDataIndex \<times> ui_call list) option" where
  "updateUIShowLine toLower sfy di infos =
     (case updateUI2 toLower sfy di infos of None \<Rightarrow> None
      | Some (di', calls) \<Rightarrow>
        (case showSelectedLine di' of None \<Rightarrow> None
         | Some calls' \<Rightarrow> Some (di', calls @ calls')))"

subsection \<open>Notions used to state the properties\<close>

text \<open>The arrival indices of a line slot, by position.\<close>

definition slotIdx :: "'i GDLineMsgs \<Rightarrow> int list" where
  "slotIdx lm = map arrivalIndex (lineMsgs lm)"

text \<open>
  What one pass of the loop of \<^verbatim>\<open>findSelectedAndUpdateAnnEntries\<close> stores in \<^verbatim>\<open>AnnEntries\<close> for a
  line slot, and whether it reports the slot's chosen event as the selected one.
\<close>

definition annEntryOf :: "('i \<Rightarrow> string) \<Rightarrow> int \<Rightarrow> 'i GDLineMsgs \<Rightarrow> Annotation option" where
  "annEntryOf sfy c lm =
     (if searchK c lm < 0
      then (if lineMsgs lm = [] then None else Some (fst (emptyAnnotation (lineMsgs lm ! 0))))
      else Some (fst (annotation sfy (lineMsgs lm ! nat (searchK c lm)))))"

definition hitOf :: "int \<Rightarrow> 'i GDLineMsgs \<Rightarrow> bool" where
  "hitOf c lm = (0 \<le> searchK c lm \<and> arrivalIndex (lineMsgs lm ! nat (searchK c lm)) = c)"

text \<open>
  The state the index keeps between calls: the counter is at least \<open>-1\<close>, and every line slot
  holds its events by strictly increasing arrival index, each between 0 and the counter.
\<close>

definition index_inv :: "'i GDDataIndex \<Rightarrow> bool" where
  "index_inv di \<longleftrightarrow>
     - 1 \<le> lastArrivalIndex di
     \<and> (\<forall>fi < length (Files di). \<forall>file. Files di ! fi = Some file \<longrightarrow>
          (\<forall>li < length (LinesMsgs file).
             sorted_wrt (<) (slotIdx (LinesMsgs file ! li))
             \<and> (\<forall>a \<in> set (slotIdx (LinesMsgs file ! li)). 0 \<le> a \<and> a \<le> lastArrivalIndex di)))"

text \<open>
  Where the cursor can be: at \<open>-1\<close> only while there is no event, and above 0 only up to the
  last arrival index.
\<close>

definition cursor_inv :: "'i GDDataIndex \<Rightarrow> bool" where
  "cursor_inv di \<longleftrightarrow>
     - 1 \<le> sel_arrivalIndex (selected di)
     \<and> (sel_arrivalIndex (selected di) = - 1 \<longrightarrow> lastArrivalIndex di = - 1)
     \<and> (0 < sel_arrivalIndex (selected di) \<longrightarrow>
          sel_arrivalIndex (selected di) \<le> lastArrivalIndex di)"

text \<open>The two caches of every file are as long as its slice of line slots.\<close>

definition caches_inv :: "'i GDDataIndex \<Rightarrow> bool" where
  "caches_inv di \<longleftrightarrow>
     (\<forall>fi < length (Files di). \<forall>file. Files di ! fi = Some file \<longrightarrow>
        length (AnnEntries file) = length (LinesMsgs file)
        \<and> length (AnnEntriesLMIndex file) = length (LinesMsgs file))"

text \<open>
  The states of an index: it is made by \<^verbatim>\<open>NewGDDataIndex\<close>, and then the ingestion task and
  the user interface call the methods below on it, one at a time (each call is made with
  the lock of \<^verbatim>\<open>GoDebugInstance\<close> held) and in any order. A call that panics leaves no state.
\<close>

inductive reachable :: "'i GDDataIndex \<Rightarrow> bool" where
  reach_new: "NewGDDataIndex b = Some di \<Longrightarrow> reachable di"
| reach_meta: "reachable di \<Longrightarrow> handleFilesDataMsg toLower di fdm = Some (di', e) \<Longrightarrow> reachable di'"
| reach_event: "reachable di \<Longrightarrow> handleLineMsg di u = Some (di', e) \<Longrightarrow> reachable di'"
| reach_clear: "reachable di \<Longrightarrow> clearMsgs di = Some di' \<Longrightarrow> reachable di'"
| reach_first: "reachable di \<Longrightarrow> reachable (fst (selectFirst di))"
| reach_last: "reachable di \<Longrightarrow> reachable (fst (selectLast di))"
| reach_prev: "reachable di \<Longrightarrow> reachable (fst (selectPrev di))"
| reach_next: "reachable di \<Longrightarrow> reachable (fst (selectNext di))"
| reach_current:
    "reachable di \<Longrightarrow> selectCurrent toLower di name annIndex offset typ = Some (di', b)
       \<Longrightarrow> reachable di'"
| reach_refresh:
    "reachable di \<Longrightarrow> updateInfoUI toLower sfy di info = Some (di', calls) \<Longrightarrow> reachable di'"

text \<open>The arrival index of the event stored last in the line slot that \<open>u\<close> addresses.\<close>

definition lastStored :: "'i GDDataIndex \<Rightarrow> 'i LineMsg \<Rightarrow> int option" where
  "lastStored di u =
     (case at (Files di) (FileIndex u) of
        Some (Some file) \<Rightarrow>
          (case at (LinesMsgs file) (DebugIndex u) of
             Some w \<Rightarrow> (if lineMsgs w = [] then None else Some (arrivalIndex (last (lineMsgs w))))
           | None \<Rightarrow> None)
      | _ \<Rightarrow> None)"

text \<open>
  A sequence of single events, each handled by \<^verbatim>\<open>handleLineMsg\<close> as the ingestion loop does: an
  event that is refused with an error is dropped and the next one is handled. The log has
  one entry per call, in call order: the arrival index of the event the call stored, or
  \<^const>\<open>None\<close> for a refused event.
\<close>

fun applyEvents ::
  "'i GDDataIndex \<Rightarrow> 'i LineMsg list \<Rightarrow> ('i GDDataIndex \<times> int option list) option" where
  "applyEvents di [] = Some (di, [])"
| "applyEvents di (u # us) =
     (case handleLineMsg di u of None \<Rightarrow> None
      | Some (di1, Some err) \<Rightarrow>
          (case applyEvents di1 us of None \<Rightarrow> None
           | Some (di2, log) \<Rightarrow> Some (di2, None # log))
      | Some (di1, None) \<Rightarrow>
          (case applyEvents di1 us of None \<Rightarrow> None
           | Some (di2, log) \<Rightarrow> Some (di2, lastStored di1 u # log)))"

text \<open>The arrival indices a log records, in call order.\<close>

definition assigned :: "int option list \<Rightarrow> int list" where
  "assigned log = List.map_filter (\<lambda>x. x) log"

text \<open>A file as \<^verbatim>\<open>clearMsgs\<close> leaves it: as many line slots, all empty, and fresh caches.\<close>

definition emptied :: "'i GDFileMsgs \<Rightarrow> 'i GDFileMsgs" where
  "emptied file =
     \<lparr>LinesMsgs = replicate (length (LinesMsgs file)) \<lparr>lineMsgs = []\<rparr>,
      AnnEntries = replicate (length (LinesMsgs file)) None,
      AnnEntriesLMIndex = replicate (length (LinesMsgs file)) 0\<rparr>"

text \<open>An entry of \<^verbatim>\<open>Files\<close> that is \<^verbatim>\<open>nil\<close> or a file all of whose line slots are empty.\<close>

definition freshOrNil :: "'i GDFileMsgs option \<Rightarrow> bool" where
  "freshOrNil f =
     (case f of None \<Rightarrow> True | Some u \<Rightarrow> list_all (\<lambda>w. lineMsgs w = []) (LinesMsgs u))"

subsection \<open>A run used as example\<close>

text \<open>
  One file \<^verbatim>\<open>a.go\<close> with three line slots, recorded with size 100 and hash \<^verbatim>\<open>H\<close>; three events
  arrive for the lines 0, 1 and 0.
\<close>

definition ex_afd :: AnnotatorFileData where
  "ex_afd = \<lparr>afd_FileIndex = 0, DebugLen = 3, Filename = ''a.go'', FileSize = 100,
              FileHash = ''H''\<rparr>"

definition ex_msg :: "int \<Rightarrow> int \<Rightarrow> string LineMsg" where
  "ex_msg line off = \<lparr>FileIndex = 0, DebugIndex = line, Offset = off, Item = ''v''\<rparr>"

definition ex_sel :: "int \<Rightarrow> Selected" where
  "ex_sel c = \<lparr>sel_arrivalIndex = c, sel_fileIndex = 0, sel_lineIndex = 0,
               sel_lineStepIndex = 0, sel_edited = False\<rparr>"

definition ex_ev :: "int \<Rightarrow> int \<Rightarrow> int \<Rightarrow> string GDLineMsg" where
  "ex_ev a line off =
     \<lparr>arrivalIndex = a, dbgLineMsg = ex_msg line off, itemBytes = None, cachedAnn = None\<rparr>"

definition ex_file ::
  "string GDLineMsg list \<Rightarrow> string GDLineMsg list \<Rightarrow> string GDLineMsg list
     \<Rightarrow> string GDFileMsgs" where
  "ex_file l0 l1 l2 =
     \<lparr>LinesMsgs = [\<lparr>lineMsgs = l0\<rparr>, \<lparr>lineMsgs = l1\<rparr>, \<lparr>lineMsgs = l2\<rparr>],
      AnnEntries = [None, None, None], AnnEntriesLMIndex = [0, 0, 0]\<rparr>"

definition ex_file3 :: "string GDFileMsgs" where
  "ex_file3 = ex_file [ex_ev 0 0 10, ex_ev 2 0 10] [ex_ev 1 1 20] []"

definition ex_di0 :: "string GDDataIndex" where
  "ex_di0 = \<lparr>FsCaseInsensitive = False, filesIndexM = Map.empty, lastArrivalIndex = - 1,
              selected = ex_sel (- 1), Afds = [], Files = []\<rparr>"

definition ex_index :: "int \<Rightarrow> int \<Rightarrow> string GDFileMsgs \<Rightarrow> string GDDataIndex" where
  "ex_index la c file =
     \<lparr>FsCaseInsensitive = False, filesIndexM = [''a.go'' \<mapsto> 0], lastArrivalIndex = la,
      selected = ex_sel c, Afds = [ex_afd], Files = [Some file]\<rparr>"

definition ex_di1 :: "string GDDataIndex" where
  "ex_di1 = ex_index (- 1) (- 1) (ex_file [] [] [])"

definition ex_di1a :: "string GDDataIndex" where
  "ex_di1a = ex_index 0 0 (ex_file [ex_ev 0 0 10] [] [])"

definition ex_di2 :: "string GDDataIndex" where
  "ex_di2 = ex_index 1 1 (ex_file [ex_ev 0 0 10] [ex_ev 1 1 20] [])"

definition ex_di3 :: "string GDDataIndex" where
  "ex_di3 = ex_index 2 2 ex_file3"

text \<open>The fresh index after the gesture First, and the example after a second metadata message.\<close>

definition ex_di0_first :: "string GDDataIndex" where
  "ex_di0_first = ex_di0\<lparr>selected := ex_sel 0\<rparr>"

definition ex_di3_meta :: "string GDDataIndex" where
  "ex_di3_meta = ex_index 2 2 (ex_file [] [] [])"

text \<open>
  The loop as \<^verbatim>\<open>clientMsgsLoop\<close> starts it on the fresh index (\<^verbatim>\<open>updatec\<close> is \<^verbatim>\<open>nil\<close>), a
  collaborator whose requests succeed, a descriptor whose file index is out of range, and
  a view of \<^verbatim>\<open>a.go\<close> in row 7 whose content no longer has the recorded size and hash.
\<close>

definition ex_loop0 :: "string loop_state" where
  "ex_loop0 = \<lparr>ls_gdi = Some ex_di0, ls_updatec = False, ls_trace = []\<rparr>"

definition ex_cmd :: Cmd where
  "ex_cmd = \<lparr>RequestFileSetPositions = None, RequestStart = None\<rparr>"

definition ex_afd_bad :: AnnotatorFileData where
  "ex_afd_bad = ex_afd\<lparr>afd_FileIndex := 1\<rparr>"

definition ex_info_edited :: ERowInfo where
  "ex_info_edited =
     \<lparr>info_Name = ''a.go'', info_ERows = [7], info_EqualToBytesHash = (\<lambda>size hash. False)\<rparr>"

text \<open>The example file after a refresh with the cursor at 2, and the index after that refresh.\<close>

definition ex_file3_at2 :: "string GDFileMsgs" where
  "ex_file3_at2 =
     \<lparr>LinesMsgs =
        [\<lparr>lineMsgs = [ex_ev 0 0 10,
                       (ex_ev 2 0 10)\<lparr>itemBytes := Some ''v'',
                          cachedAnn := Some \<lparr>ann_Offset = 10, ann_Bytes = ''v''\<rparr>\<rparr>]\<rparr>,
         \<lparr>lineMsgs = [(ex_ev 1 1 20)\<lparr>itemBytes := Some ''v'',
                          cachedAnn := Some \<lparr>ann_Offset = 20, ann_Bytes = ''v''\<rparr>\<rparr>]\<rparr>,
         \<lparr>lineMsgs = []\<rparr>],
      AnnEntries = [Some \<lparr>ann_Offset = 10, ann_Bytes = ''v''\<rparr>,
                    Some \<lparr>ann_Offset = 20, ann_Bytes = ''v''\<rparr>, None],
      AnnEntriesLMIndex = [1, 0, - 1]\<rparr>"

definition ex_di3_edited :: "string GDDataIndex" where
  "ex_di3_edited =
     (ex_index 2 2 ex_file3_at2)\<lparr>selected :=
        \<lparr>sel_arrivalIndex = 2, sel_fileIndex = 0, sel_lineIndex = 0, sel_lineStepIndex = 1,
         sel_edited = True\<rparr>\<rparr>"

section \<open>Properties\<close>

subsection \<open>Binary search\<close>

lemma Search_loop_unfold_lo: "i < j \<Longrightarrow> \<not> f ((i + j) div 2) \<Longrightarrow> Search_loop f i j = Search_loop f ((i + j) div 2 + 1) j"
  by (subst Search_loop.simps) (simp add: Let_def)

lemma Search_loop_unfold_hi: "i < j \<Longrightarrow> f ((i + j) div 2) \<Longrightarrow> Search_loop f i j = Search_loop f i ((i + j) div 2)"
  by (subst Search_loop.simps) (simp add: Let_def)

lemma Search_loop_unfold_done: "\<not> i < j \<Longrightarrow> Search_loop f i j = i"
  by (subst Search_loop.simps) simp

lemma Search_loop_range: "i \<le> j \<Longrightarrow> i \<le> Search_loop f i j \<and> Search_loop f i j \<le> j"
proof (induction f i j rule: Search_loop.induct)
  case (1 f i j)
  show ?case
  proof (cases "i < j")
    case False
    then show ?thesis using "1.prems" by (simp add: Search_loop_unfold_done)
  next
    case True
    define h where "h = (i + j) div 2"
    from True have hb: "i \<le> h" "h < j" by (simp_all add: h_def)
    show ?thesis
    proof (cases "f h")
      case True
      have "i \<le> Search_loop f i h \<and> Search_loop f i h \<le> h"
        by (rule "1.IH"(2)[OF \<open>i < j\<close> h_def _ hb(1)]) (simp add: True)
      moreover have "Search_loop f i j = Search_loop f i h"
        unfolding h_def using \<open>i < j\<close> True by (intro Search_loop_unfold_hi) (simp_all add: h_def)
      ultimately show ?thesis using hb by linarith
    next
      case False
      have "h + 1 \<le> j" using hb by simp
      have "h + 1 \<le> Search_loop f (h + 1) j \<and> Search_loop f (h + 1) j \<le> j"
        by (rule "1.IH"(1)[OF \<open>i < j\<close> h_def False \<open>h + 1 \<le> j\<close>])
      moreover have "Search_loop f i j = Search_loop f (h + 1) j"
        unfolding h_def using \<open>i < j\<close> False by (intro Search_loop_unfold_lo) (simp_all add: h_def)
      ultimately show ?thesis using hb by linarith
    qed
  qed
qed

lemma Search_loop_least:
  assumes "i \<le> j" and "j \<le> n"
    and "\<forall>x y. x \<le> y \<and> y < n \<and> f x \<longrightarrow> f y"
    and "\<forall>x<i. \<not> f x" and "\<forall>x. j \<le> x \<and> x < n \<longrightarrow> f x"
  shows "(\<forall>x<Search_loop f i j. \<not> f x) \<and> (\<forall>x. Search_loop f i j \<le> x \<and> x < n \<longrightarrow> f x)"
  using assms
proof (induction f i j rule: Search_loop.induct)
  case (1 f i j)
  show ?case
  proof (cases "i < j")
    case False
    with "1.prems"(1) have "i = j" by simp
    moreover have "Search_loop f i j = i" using False by (rule Search_loop_unfold_done)
    ultimately show ?thesis using "1.prems"(4,5) by simp
  next
    case True
    define h where "h = (i + j) div 2"
    from True have hb: "i \<le> h" "h < j" by (simp_all add: h_def)
    have hn: "h < n" "h \<le> n" using hb "1.prems"(2) by simp_all
    show ?thesis
    proof (cases "f h")
      case True
      have eq: "Search_loop f i j = Search_loop f i h"
        unfolding h_def using \<open>i < j\<close> True by (intro Search_loop_unfold_hi) (simp_all add: h_def)
      have up: "\<forall>x. h \<le> x \<and> x < n \<longrightarrow> f x"
        using True "1.prems"(3) by blast
      have nn: "\<not> \<not> f h" using True by simp
      show ?thesis unfolding eq
        by (rule "1.IH"(2)[OF \<open>i < j\<close> h_def nn hb(1) hn(2) "1.prems"(3) "1.prems"(4) up])
    next
      case False
      have eq: "Search_loop f i j = Search_loop f (h + 1) j"
        unfolding h_def using \<open>i < j\<close> False by (intro Search_loop_unfold_lo) (simp_all add: h_def)
      have lo: "\<forall>x<h + 1. \<not> f x"
      proof (intro allI impI)
        fix x assume "x < h + 1"
        then have "x \<le> h" by simp
        then show "\<not> f x" using False "1.prems"(3) hn(1) by blast
      qed
      have "h + 1 \<le> j" using hb by simp
      show ?thesis unfolding eq
        by (rule "1.IH"(1)[OF \<open>i < j\<close> h_def False \<open>h + 1 \<le> j\<close> "1.prems"(2) "1.prems"(3) lo "1.prems"(5)])
    qed
  qed
qed

lemma Search_range: "Search n f \<le> n"
  using Search_loop_range[of 0 n f] by (simp add: Search_def)

lemma Search_least:
  assumes "\<forall>x y. x \<le> y \<and> y < n \<and> f x \<longrightarrow> f y"
  shows "(\<forall>x<Search n f. \<not> f x) \<and> (\<forall>x. Search n f \<le> x \<and> x < n \<longrightarrow> f x)"
  unfolding Search_def by (rule Search_loop_least[of 0 n n f]) (use assms in auto)

text \<open>
  The search reads the predicate only at indices below \<open>n\<close>: the closure of
  \<^verbatim>\<open>findSelectedAndUpdateAnnEntries\<close> never indexes \<^verbatim>\<open>lm.lineMsgs\<close> out of range.
\<close>

lemma Search_loop_in_range:
  "j \<le> n \<Longrightarrow> \<forall>x<n. f x = g x \<Longrightarrow> Search_loop f i j = Search_loop g i j"
proof (induction f i j rule: Search_loop.induct)
  case (1 f i j)
  show ?case
  proof (cases "i < j")
    case False
    then show ?thesis by (simp add: Search_loop_unfold_done)
  next
    case True
    define h where "h = (i + j) div 2"
    from True have hb: "i \<le> h" "h < j" by (simp_all add: h_def)
    then have fg: "f h = g h" using "1.prems" by simp
    show ?thesis
    proof (cases "f h")
      case True
      have "Search_loop f i h = Search_loop g i h"
        by (rule "1.IH"(2)[OF \<open>i < j\<close> h_def]) (use True hb "1.prems" in simp_all)
      moreover have "Search_loop f i j = Search_loop f i h"
        using \<open>i < j\<close> True unfolding h_def by (rule Search_loop_unfold_hi)
      moreover have "Search_loop g i j = Search_loop g i h"
        using \<open>i < j\<close> True fg unfolding h_def by (intro Search_loop_unfold_hi) simp_all
      ultimately show ?thesis by simp
    next
      case False
      have "Search_loop f (h + 1) j = Search_loop g (h + 1) j"
        by (rule "1.IH"(1)[OF \<open>i < j\<close> h_def False]) (use "1.prems" in simp_all)
      moreover have "Search_loop f i j = Search_loop f (h + 1) j"
        using \<open>i < j\<close> False unfolding h_def by (rule Search_loop_unfold_lo)
      moreover have "Search_loop g i j = Search_loop g (h + 1) j"
        using \<open>i < j\<close> False fg unfolding h_def by (intro Search_loop_unfold_lo) simp_all
      ultimately show ?thesis by simp
    qed
  qed
qed

lemma Search_in_range: "\<forall>x<n. f x = g x \<Longrightarrow> Search n f = Search n g"
  unfolding Search_def by (rule Search_loop_in_range[of n n]) simp_all

lemma sorted_search_mono:
  assumes "sorted_wrt (<) (as :: int list)"
  shows "\<forall>x y. x \<le> y \<and> y < length as \<and> c < as ! x \<longrightarrow> c < as ! y"
proof (intro allI impI)
  fix x y assume h: "x \<le> y \<and> y < length as \<and> c < as ! x"
  show "c < as ! y"
  proof (cases "x = y")
    case True with h show ?thesis by simp
  next
    case False
    with h have "x < y" by simp
    with assms h have "as ! x < as ! y" by (simp add: sorted_wrt_nth_less)
    with h show ?thesis by simp
  qed
qed

lemma searchK_range: "- 1 \<le> searchK c lm \<and> searchK c lm < int (length (lineMsgs lm))"
  using Search_range[of "length (lineMsgs lm)" "\<lambda>i. arrivalIndex (lineMsgs lm ! i) > c"]
  by (simp add: searchK_def)

lemma searchK_sorted:
  assumes "sorted_wrt (<) (slotIdx lm)"
  shows "(searchK c lm = - 1 \<longleftrightarrow> (\<forall>i<length (lineMsgs lm). c < arrivalIndex (lineMsgs lm ! i)))"
    and "0 \<le> searchK c lm \<Longrightarrow> arrivalIndex (lineMsgs lm ! nat (searchK c lm)) \<le> c"
    and "i < length (lineMsgs lm) \<Longrightarrow> arrivalIndex (lineMsgs lm ! i) \<le> c \<Longrightarrow> int i \<le> searchK c lm"
proof -
  define n where "n = length (lineMsgs lm)"
  define f where "f = (\<lambda>i. arrivalIndex (lineMsgs lm ! i) > c)"
  define r where "r = Search n f"
  have mono: "\<forall>x y. x \<le> y \<and> y < n \<and> f x \<longrightarrow> f y"
  proof (intro allI impI)
    fix x y assume h: "x \<le> y \<and> y < n \<and> f x"
    then have "x < n" by simp
    with h have "x \<le> y \<and> y < length (slotIdx lm) \<and> c < slotIdx lm ! x"
      by (simp add: slotIdx_def n_def f_def)
    with sorted_search_mono[OF assms, of c] have "c < slotIdx lm ! y" by blast
    with h show "f y" by (simp add: slotIdx_def n_def f_def)
  qed
  have L1: "\<And>x. x < r \<Longrightarrow> \<not> f x" and L2: "\<And>x. r \<le> x \<Longrightarrow> x < n \<Longrightarrow> f x"
    using Search_least[OF mono] unfolding r_def by blast+
  have k: "searchK c lm = int r - 1" by (simp add: searchK_def r_def n_def f_def)
  have rn: "r \<le> n" unfolding r_def by (rule Search_range)
  have A: "(searchK c lm = - 1) = (\<forall>i<n. f i)"
  proof
    assume "searchK c lm = - 1"
    then have "r = 0" using k by simp
    then show "\<forall>i<n. f i" using L2 by blast
  next
    assume a: "\<forall>i<n. f i"
    have "r = 0"
    proof (rule ccontr)
      assume r0: "r \<noteq> 0"
      then have "r - 1 < r" by simp
      then have "\<not> f (r - 1)" by (rule L1)
      moreover have "r - 1 < n" using rn r0 by simp
      ultimately show False using a by blast
    qed
    then show "searchK c lm = - 1" using k by simp
  qed
  show "(searchK c lm = - 1 \<longleftrightarrow> (\<forall>i<length (lineMsgs lm). c < arrivalIndex (lineMsgs lm ! i)))"
    using A unfolding n_def f_def .
  show "arrivalIndex (lineMsgs lm ! nat (searchK c lm)) \<le> c" if "0 \<le> searchK c lm"
  proof -
    from that k have pos: "r \<noteq> 0" by simp
    then have e: "nat (searchK c lm) = r - 1" using k by simp
    have "r - 1 < r" using pos by simp
    then have "\<not> f (r - 1)" by (rule L1)
    then show ?thesis unfolding e f_def by simp
  qed
  show "int i \<le> searchK c lm" if "i < length (lineMsgs lm)" "arrivalIndex (lineMsgs lm ! i) \<le> c"
  proof -
    have "\<not> f i" using that(2) by (simp add: f_def)
    moreover have "i < n" using that(1) by (simp add: n_def)
    ultimately have "\<not> r \<le> i" using L2 by blast
    then show ?thesis using k by simp
  qed
qed

subsection \<open>The example run\<close>

lemma ex_new: "NewGDDataIndex False = Some ex_di0"
  by (simp add: NewGDDataIndex_def clearMsgs_def ex_di0_def ex_sel_def)

lemma ex_meta: "handleFilesDataMsg id ex_di0 [ex_afd] = Some (ex_di1, None)"
  by (simp add: handleFilesDataMsg_def ex_di0_def ex_di1_def ex_index_def ex_afd_def FilesIndexKey_def
       NewGDFileMsgs_def make_slice_def setAt_def ex_file_def numeral_3_eq_3)

lemma ex_events: "handleLineMsgs_loop ex_di1 [ex_msg 0 10, ex_msg 1 20, ex_msg 0 10] = Some (ex_di3, None)"
  by (simp add: handleLineMsg_def ex_di1_def ex_di3_def ex_file3_def ex_index_def ex_file_def ex_msg_def ex_ev_def
      ex_sel_def at_def Let_def)

lemma ex_di1_inv: "index_inv ex_di1"
  by (simp add: index_inv_def ex_di1_def ex_index_def ex_file_def slotIdx_def less_Suc_eq numeral_3_eq_3)

lemma ex_di3_inv: "index_inv ex_di3"
  by (simp add: index_inv_def ex_di3_def ex_file3_def ex_index_def ex_file_def ex_ev_def slotIdx_def
      less_Suc_eq numeral_3_eq_3)

lemma ex_step1: "handleLineMsg ex_di1 (ex_msg 0 10) = Some (ex_di1a, None)"
  by (simp add: handleLineMsg_def ex_di1_def ex_di1a_def ex_index_def ex_file_def ex_msg_def ex_ev_def
      ex_sel_def at_def Let_def)

lemma ex_step2: "handleLineMsg ex_di1a (ex_msg 1 20) = Some (ex_di2, None)"
  by (simp add: handleLineMsg_def ex_di2_def ex_di1a_def ex_index_def ex_file_def ex_msg_def ex_ev_def
      ex_sel_def at_def Let_def)

lemma ex_step3: "handleLineMsg ex_di2 (ex_msg 0 10) = Some (ex_di3, None)"
  by (simp add: handleLineMsg_def ex_di2_def ex_di3_def ex_file3_def ex_index_def ex_file_def ex_msg_def ex_ev_def
      ex_sel_def at_def Let_def)

lemma ex_step_bad: "handleLineMsg ex_di1a (ex_msg 5 0) = Some (ex_di1a, Some (BadDebugIndex 5 3))"
  by (simp add: handleLineMsg_def ex_di1a_def ex_index_def ex_file_def ex_msg_def at_def Let_def)

lemma ex_lastStored:
  "lastStored ex_di1a (ex_msg 0 10) = Some 0" "lastStored ex_di2 (ex_msg 1 20) = Some 1"
  "lastStored ex_di3 (ex_msg 0 10) = Some 2"
  by (simp_all add: lastStored_def ex_di1a_def ex_di2_def ex_di3_def ex_file3_def ex_index_def
      ex_file_def ex_msg_def ex_ev_def at_def)

lemma ex_applyEvents:
  "applyEvents ex_di1 [ex_msg 0 10, ex_msg 5 0, ex_msg 1 20, ex_msg 0 10]
     = Some (ex_di3, [Some 0, None, Some 1, Some 2])"
  by (simp add: ex_step1 ex_step2 ex_step3 ex_step_bad ex_lastStored)

subsection \<open>Resolving the selection in a file\<close>

lemma annotation_arrivalIndex [simp]: "arrivalIndex (snd (annotation sfy m)) = arrivalIndex m"
  by (simp add: annotation_def build_def Let_def split: option.splits prod.splits)

lemma emptyAnnotation_arrivalIndex [simp]: "arrivalIndex (snd (emptyAnnotation m)) = arrivalIndex m"
  by (simp add: emptyAnnotation_def build_def Let_def split: option.splits prod.splits)

lemma emptyAnnotation_Bytes: "ann_Bytes (fst (emptyAnnotation m)) = '' ''"
  by (simp add: emptyAnnotation_def build_def Let_def split: option.splits prod.splits)

lemma findBody_effect:
  assumes "line < length (LinesMsgs file)" and "line < length (AnnEntries file)"
    and "line < length (AnnEntriesLMIndex file)"
  shows "\<exists>file'. findBody sfy c line (file, sl, ss, fd) =
            Some (file', if hitOf c (LinesMsgs file ! line)
                         then (int line, searchK c (LinesMsgs file ! line), True) else (sl, ss, fd))
          \<and> AnnEntriesLMIndex file' = (AnnEntriesLMIndex file)[line := searchK c (LinesMsgs file ! line)]
          \<and> AnnEntries file' = (AnnEntries file)[line := annEntryOf sfy c (LinesMsgs file ! line)]
          \<and> length (LinesMsgs file') = length (LinesMsgs file)
          \<and> (\<forall>l. l \<noteq> line \<longrightarrow> LinesMsgs file' ! l = LinesMsgs file ! l)"
proof -
  define lm where "lm = LinesMsgs file ! line"
  define k where "k = searchK c lm"
  have kr: "- 1 \<le> k" "k < int (length (lineMsgs lm))"
    using searchK_range[of c lm] by (simp_all add: k_def)
  have atl: "at (LinesMsgs file) (int line) = Some lm"
    using assms(1) by (simp add: at_def lm_def)
  show ?thesis
  proof (cases "k < 0")
    case True
    then have nh: "\<not> hitOf c lm" by (simp add: hitOf_def k_def)
    show ?thesis
    proof (cases "lineMsgs lm = []")
      case True
      with \<open>k < 0\<close> nh assms show ?thesis
        unfolding lm_def[symmetric]
        by (simp add: findBody_def atl setAt_def k_def[symmetric] annEntryOf_def Let_def)
    next
      case False
      with \<open>k < 0\<close> nh assms show ?thesis
        unfolding lm_def[symmetric]
        by (simp add: findBody_def atl setAt_def k_def[symmetric] annEntryOf_def Let_def
            case_prod_beta)
    qed
  next
    case False
    then have k0: "0 \<le> k" by simp
    have atk: "at (lineMsgs lm) k = Some (lineMsgs lm ! nat k)"
      using k0 kr by (simp add: at_def)
    from k0 assms show ?thesis
      unfolding lm_def[symmetric]
      by (simp add: findBody_def atl atk setAt_def k_def[symmetric] annEntryOf_def hitOf_def Let_def
          case_prod_beta)
  qed
qed


lemma findLoop_append:
  "findLoop sfy c (xs @ ys) st =
     (case findLoop sfy c xs st of None \<Rightarrow> None | Some st' \<Rightarrow> findLoop sfy c ys st')"
  by (induction xs arbitrary: st) (simp_all split: option.splits)

lemma findLoop_prefix:
  assumes la: "length (LinesMsgs file) \<le> length (AnnEntries file)"
    and lk: "length (LinesMsgs file) \<le> length (AnnEntriesLMIndex file)"
  shows "m \<le> length (LinesMsgs file) \<Longrightarrow>
    \<exists>file' sl ss fd.
      findLoop sfy c [0..<m] (file, 0, 0, False) = Some (file', sl, ss, fd)
      \<and> length (LinesMsgs file') = length (LinesMsgs file)
      \<and> length (AnnEntries file') = length (AnnEntries file)
      \<and> length (AnnEntriesLMIndex file') = length (AnnEntriesLMIndex file)
      \<and> (\<forall>l. m \<le> l \<longrightarrow> LinesMsgs file' ! l = LinesMsgs file ! l)
      \<and> (\<forall>l<m. AnnEntriesLMIndex file' ! l = searchK c (LinesMsgs file ! l)
               \<and> AnnEntries file' ! l = annEntryOf sfy c (LinesMsgs file ! l))
      \<and> (fd \<longleftrightarrow> (\<exists>l<m. hitOf c (LinesMsgs file ! l)))
      \<and> (fd \<longrightarrow> (\<exists>l<m. sl = int l \<and> ss = searchK c (LinesMsgs file ! l)
                        \<and> hitOf c (LinesMsgs file ! l)))"
proof (induction m)
  case 0
  show ?case
    by (rule exI[of _ "file"], rule exI[of _ 0], rule exI[of _ 0], rule exI[of _ False]) simp
next
  case (Suc m)
  then have mlt: "m < length (LinesMsgs file)" by simp
  from Suc obtain f1 sl ss fd where
    run: "findLoop sfy c [0..<m] (file, 0, 0, False) = Some (f1, sl, ss, fd)"
    and l1: "length (LinesMsgs f1) = length (LinesMsgs file)"
    and l2: "length (AnnEntries f1) = length (AnnEntries file)"
    and l3: "length (AnnEntriesLMIndex f1) = length (AnnEntriesLMIndex file)"
    and rest: "\<forall>l. m \<le> l \<longrightarrow> LinesMsgs f1 ! l = LinesMsgs file ! l"
    and dn: "\<forall>l<m. AnnEntriesLMIndex f1 ! l = searchK c (LinesMsgs file ! l)
               \<and> AnnEntries f1 ! l = annEntryOf sfy c (LinesMsgs file ! l)"
    and fd1: "fd \<longleftrightarrow> (\<exists>l<m. hitOf c (LinesMsgs file ! l))"
    and fd2: "fd \<longrightarrow> (\<exists>l<m. sl = int l \<and> ss = searchK c (LinesMsgs file ! l)
                        \<and> hitOf c (LinesMsgs file ! l))"
    by auto
  have cur: "LinesMsgs f1 ! m = LinesMsgs file ! m" using rest by simp
  have b1: "m < length (LinesMsgs f1)" using mlt l1 by simp
  have b2: "m < length (AnnEntries f1)" using mlt l2 la by simp
  have b3: "m < length (AnnEntriesLMIndex f1)" using mlt l3 lk by simp
  from findBody_effect[OF b1 b2 b3, of sfy c sl ss fd] obtain f2 where
    body: "findBody sfy c m (f1, sl, ss, fd) =
            Some (f2, if hitOf c (LinesMsgs file ! m)
                      then (int m, searchK c (LinesMsgs file ! m), True) else (sl, ss, fd))"
    and k2: "AnnEntriesLMIndex f2 = (AnnEntriesLMIndex f1)[m := searchK c (LinesMsgs file ! m)]"
    and e2: "AnnEntries f2 = (AnnEntries f1)[m := annEntryOf sfy c (LinesMsgs file ! m)]"
    and n2: "length (LinesMsgs f2) = length (LinesMsgs f1)"
    and o2: "\<forall>l. l \<noteq> m \<longrightarrow> LinesMsgs f2 ! l = LinesMsgs f1 ! l"
    unfolding cur by blast
  define res where "res = (if hitOf c (LinesMsgs file ! m)
                      then (int m, searchK c (LinesMsgs file ! m), True) else (sl, ss, fd))"
  have step: "findLoop sfy c [0..<Suc m] (file, 0, 0, False) = Some (f2, res)"
    by (simp add: findLoop_append run body res_def)
  have P1: "length (LinesMsgs f2) = length (LinesMsgs file)" using n2 l1 by simp
  have P2: "length (AnnEntries f2) = length (AnnEntries file)" using e2 l2 by simp
  have P3: "length (AnnEntriesLMIndex f2) = length (AnnEntriesLMIndex file)" using k2 l3 by simp
  have P4: "\<forall>l. Suc m \<le> l \<longrightarrow> LinesMsgs f2 ! l = LinesMsgs file ! l"
    using o2 rest by simp
  have P5: "\<forall>l<Suc m. AnnEntriesLMIndex f2 ! l = searchK c (LinesMsgs file ! l)
               \<and> AnnEntries f2 ! l = annEntryOf sfy c (LinesMsgs file ! l)"
  proof (intro allI impI)
    fix l assume "l < Suc m"
    show "AnnEntriesLMIndex f2 ! l = searchK c (LinesMsgs file ! l)
               \<and> AnnEntries f2 ! l = annEntryOf sfy c (LinesMsgs file ! l)"
    proof (cases "l = m")
      case True
      then show ?thesis using k2 e2 b2 b3 by simp
    next
      case False
      with \<open>l < Suc m\<close> have "l < m" by simp
      with dn False show ?thesis using k2 e2 by simp
    qed
  qed
  obtain sl' ss' fd' where r: "res = (sl', ss', fd')" by (cases res) auto
  have P0: "findLoop sfy c [0..<Suc m] (file, 0, 0, False) = Some (f2, sl', ss', fd')"
    using step r by simp
  have P6: "fd' \<longleftrightarrow> (\<exists>l<Suc m. hitOf c (LinesMsgs file ! l))"
    using fd1 r by (auto simp: res_def less_Suc_eq split: if_splits)
  have P7: "fd' \<longrightarrow> (\<exists>l<Suc m. sl' = int l \<and> ss' = searchK c (LinesMsgs file ! l)
                        \<and> hitOf c (LinesMsgs file ! l))"
    using fd2 r by (auto simp: res_def less_Suc_eq split: if_splits)
  from P0 P1 P2 P3 P4 P5 P6 P7 show ?case by blast
qed

text \<open>
  C1. For a file whose annotation caches are as long as its slice of line slots, and whose line
  slots hold their events by strictly increasing arrival index,
  \<^verbatim>\<open>findSelectedAndUpdateAnnEntries\<close> with cursor \<open>c\<close> returns, and for every line it stores
  in \<^verbatim>\<open>AnnEntriesLMIndex\<close> the largest position whose arrival index is at most \<open>c\<close>, or \<open>-1\<close>
  when there is none, that is when the slot is empty or \<open>c\<close> is below its first arrival
  index. With position \<open>-1\<close> a slot that has events shows the placeholder annotation (the
  bytes \<^verbatim>\<open>" "\<close>) of its first event and an empty slot shows nothing; otherwise the line shows
  the annotation of the chosen event. The result \<^verbatim>\<open>found\<close> holds exactly when the chosen
  event of some line has arrival index \<open>c\<close>, and then the returned line and position are
  those of such an event.
\<close>

theorem findSelectedAndUpdateAnnEntries_resolves:
  assumes la: "length (LinesMsgs file) \<le> length (AnnEntries file)"
    and lk: "length (LinesMsgs file) \<le> length (AnnEntriesLMIndex file)"
    and sorted: "\<forall>lm \<in> set (LinesMsgs file). sorted_wrt (<) (map arrivalIndex (lineMsgs lm))"
  shows "\<exists>file' selLine selLineStep found.
    findSelectedAndUpdateAnnEntries sfy file c = Some (file', selLine, selLineStep, found)
    \<and> (\<forall>line < length (LinesMsgs file).
         - 1 \<le> AnnEntriesLMIndex file' ! line
         \<and> AnnEntriesLMIndex file' ! line < int (length (lineMsgs (LinesMsgs file ! line)))
         \<and> (0 \<le> AnnEntriesLMIndex file' ! line \<longrightarrow>
              arrivalIndex (lineMsgs (LinesMsgs file ! line) ! nat (AnnEntriesLMIndex file' ! line)) \<le> c
              \<and> AnnEntries file' ! line =
                  Some (fst (annotation sfy
                     (lineMsgs (LinesMsgs file ! line) ! nat (AnnEntriesLMIndex file' ! line)))))
         \<and> (\<forall>i < length (lineMsgs (LinesMsgs file ! line)).
              arrivalIndex (lineMsgs (LinesMsgs file ! line) ! i) \<le> c
                \<longrightarrow> int i \<le> AnnEntriesLMIndex file' ! line)
         \<and> (AnnEntriesLMIndex file' ! line = - 1 \<longleftrightarrow>
              lineMsgs (LinesMsgs file ! line) = []
              \<or> c < arrivalIndex (lineMsgs (LinesMsgs file ! line) ! 0))
         \<and> (AnnEntriesLMIndex file' ! line = - 1 \<and> lineMsgs (LinesMsgs file ! line) \<noteq> [] \<longrightarrow>
              AnnEntries file' ! line
                = Some (fst (emptyAnnotation (lineMsgs (LinesMsgs file ! line) ! 0)))
              \<and> map_option ann_Bytes (AnnEntries file' ! line) = Some '' '')
         \<and> (lineMsgs (LinesMsgs file ! line) = [] \<longrightarrow> AnnEntries file' ! line = None))
    \<and> (found \<longleftrightarrow>
         (\<exists>line < length (LinesMsgs file).
            0 \<le> AnnEntriesLMIndex file' ! line
            \<and> arrivalIndex (lineMsgs (LinesMsgs file ! line) ! nat (AnnEntriesLMIndex file' ! line)) = c))
    \<and> (found \<longrightarrow>
         0 \<le> selLine \<and> nat selLine < length (LinesMsgs file)
         \<and> selLineStep = AnnEntriesLMIndex file' ! nat selLine
         \<and> 0 \<le> selLineStep
         \<and> arrivalIndex (lineMsgs (LinesMsgs file ! nat selLine) ! nat selLineStep) = c)"
proof -
  define n where "n = length (LinesMsgs file)"
  from findLoop_prefix[OF la lk, of n sfy c] obtain file' sl ss fd where
    run: "findLoop sfy c [0..<n] (file, 0, 0, False) = Some (file', sl, ss, fd)"
    and dn: "\<forall>l<n. AnnEntriesLMIndex file' ! l = searchK c (LinesMsgs file ! l)
               \<and> AnnEntries file' ! l = annEntryOf sfy c (LinesMsgs file ! l)"
    and fd1: "fd \<longleftrightarrow> (\<exists>l<n. hitOf c (LinesMsgs file ! l))"
    and fd2: "fd \<longrightarrow> (\<exists>l<n. sl = int l \<and> ss = searchK c (LinesMsgs file ! l)
                        \<and> hitOf c (LinesMsgs file ! l))"
    unfolding n_def by blast
  have R: "findSelectedAndUpdateAnnEntries sfy file c = Some (file', sl, ss, fd)"
    using run by (simp add: findSelectedAndUpdateAnnEntries_def n_def)
  have L: "- 1 \<le> AnnEntriesLMIndex file' ! line
         \<and> AnnEntriesLMIndex file' ! line < int (length (lineMsgs (LinesMsgs file ! line)))
         \<and> (0 \<le> AnnEntriesLMIndex file' ! line \<longrightarrow>
              arrivalIndex (lineMsgs (LinesMsgs file ! line) ! nat (AnnEntriesLMIndex file' ! line)) \<le> c
              \<and> AnnEntries file' ! line =
                  Some (fst (annotation sfy
                     (lineMsgs (LinesMsgs file ! line) ! nat (AnnEntriesLMIndex file' ! line)))))
         \<and> (\<forall>i < length (lineMsgs (LinesMsgs file ! line)).
              arrivalIndex (lineMsgs (LinesMsgs file ! line) ! i) \<le> c
                \<longrightarrow> int i \<le> AnnEntriesLMIndex file' ! line)
         \<and> (AnnEntriesLMIndex file' ! line = - 1 \<longleftrightarrow>
              lineMsgs (LinesMsgs file ! line) = []
              \<or> c < arrivalIndex (lineMsgs (LinesMsgs file ! line) ! 0))
         \<and> (AnnEntriesLMIndex file' ! line = - 1 \<and> lineMsgs (LinesMsgs file ! line) \<noteq> [] \<longrightarrow>
              AnnEntries file' ! line
                = Some (fst (emptyAnnotation (lineMsgs (LinesMsgs file ! line) ! 0)))
              \<and> map_option ann_Bytes (AnnEntries file' ! line) = Some '' '')
         \<and> (lineMsgs (LinesMsgs file ! line) = [] \<longrightarrow> AnnEntries file' ! line = None)"
    if ln: "line < n" for line
  proof -
    define lm where "lm = LinesMsgs file ! line"
    define k where "k = searchK c lm"
    have kk: "AnnEntriesLMIndex file' ! line = k" and ee: "AnnEntries file' ! line = annEntryOf sfy c lm"
      using dn ln by (simp_all add: lm_def k_def)
    have "lm \<in> set (LinesMsgs file)" using ln by (simp add: lm_def n_def)
    then have so: "sorted_wrt (<) (slotIdx lm)" using sorted by (simp add: slotIdx_def)
    have kr: "- 1 \<le> k" "k < int (length (lineMsgs lm))"
      using searchK_range[of c lm] by (simp_all add: k_def)
    note S = searchK_sorted[OF so, where c = c, folded k_def]
    have a0: "(k = - 1) = (lineMsgs lm = [] \<or> c < arrivalIndex (lineMsgs lm ! 0))"
    proof
      assume "k = - 1"
      then have "\<forall>i<length (lineMsgs lm). c < arrivalIndex (lineMsgs lm ! i)" using S(1) by simp
      then show "lineMsgs lm = [] \<or> c < arrivalIndex (lineMsgs lm ! 0)" by (cases "lineMsgs lm") auto
    next
      assume h: "lineMsgs lm = [] \<or> c < arrivalIndex (lineMsgs lm ! 0)"
      have "\<forall>i<length (lineMsgs lm). c < arrivalIndex (lineMsgs lm ! i)"
      proof (intro allI impI)
        fix i assume il: "i < length (lineMsgs lm)"
        then have ne: "lineMsgs lm \<noteq> []" by auto
        with h have c0: "c < arrivalIndex (lineMsgs lm ! 0)" by simp
        show "c < arrivalIndex (lineMsgs lm ! i)"
        proof (cases "i = 0")
          case True with c0 show ?thesis by simp
        next
          case False
          then have "0 < i" by simp
          moreover have "i < length (slotIdx lm)" using il by (simp add: slotIdx_def)
          ultimately have "slotIdx lm ! 0 < slotIdx lm ! i"
            using so by (rule_tac sorted_wrt_nth_less)
          then show ?thesis using c0 il ne by (simp add: slotIdx_def)
        qed
      qed
      then show "k = - 1" using S(1) by simp
    qed
    have b1: "0 \<le> k \<longrightarrow> arrivalIndex (lineMsgs lm ! nat k) \<le> c
              \<and> AnnEntries file' ! line = Some (fst (annotation sfy (lineMsgs lm ! nat k)))"
      using S(2) ee by (simp add: annEntryOf_def k_def)
    have b2: "\<forall>i < length (lineMsgs lm). arrivalIndex (lineMsgs lm ! i) \<le> c \<longrightarrow> int i \<le> k"
      using S(3) by blast
    have b3: "k = - 1 \<and> lineMsgs lm \<noteq> [] \<longrightarrow>
              AnnEntries file' ! line = Some (fst (emptyAnnotation (lineMsgs lm ! 0)))
              \<and> map_option ann_Bytes (AnnEntries file' ! line) = Some '' ''"
      using ee by (simp add: annEntryOf_def k_def[symmetric] emptyAnnotation_Bytes)
    have b4: "lineMsgs lm = [] \<longrightarrow> AnnEntries file' ! line = None"
      using ee kr by (auto simp add: annEntryOf_def k_def[symmetric])
    show ?thesis unfolding kk lm_def[symmetric] using kr a0 b1 b2 b3 b4 by blast
  qed
  have hit: "hitOf c (LinesMsgs file ! l) \<longleftrightarrow>
      0 \<le> AnnEntriesLMIndex file' ! l
      \<and> arrivalIndex (lineMsgs (LinesMsgs file ! l) ! nat (AnnEntriesLMIndex file' ! l)) = c"
    if "l < n" for l
    using dn that by (simp add: hitOf_def)
  have F1: "fd \<longleftrightarrow> (\<exists>line < n. 0 \<le> AnnEntriesLMIndex file' ! line
            \<and> arrivalIndex (lineMsgs (LinesMsgs file ! line) ! nat (AnnEntriesLMIndex file' ! line)) = c)"
    using fd1 hit by blast
  have F2: "fd \<longrightarrow> 0 \<le> sl \<and> nat sl < n \<and> ss = AnnEntriesLMIndex file' ! nat sl \<and> 0 \<le> ss
         \<and> arrivalIndex (lineMsgs (LinesMsgs file ! nat sl) ! nat ss) = c"
  proof
    assume fd
    with fd2 obtain l where l: "l < n" "sl = int l" "ss = searchK c (LinesMsgs file ! l)"
      "hitOf c (LinesMsgs file ! l)" by blast
    then show "0 \<le> sl \<and> nat sl < n \<and> ss = AnnEntriesLMIndex file' ! nat sl \<and> 0 \<le> ss
         \<and> arrivalIndex (lineMsgs (LinesMsgs file ! nat sl) ! nat ss) = c"
      using dn by (simp add: hitOf_def)
  qed
  from R L F1 F2 show ?thesis unfolding n_def by blast
qed


lemma ex_file3_eval:
  "findSelectedAndUpdateAnnEntries id ex_file3 0 =
     Some (\<lparr>LinesMsgs =
              [\<lparr>lineMsgs = [(ex_ev 0 0 10)\<lparr>itemBytes := Some ''v'',
                                   cachedAnn := Some \<lparr>ann_Offset = 10, ann_Bytes = ''v''\<rparr>\<rparr>,
                             ex_ev 2 0 10]\<rparr>,
               \<lparr>lineMsgs = [(ex_ev 1 1 20)\<lparr>cachedAnn := Some \<lparr>ann_Offset = 20, ann_Bytes = '' ''\<rparr>\<rparr>]\<rparr>,
               \<lparr>lineMsgs = []\<rparr>],
            AnnEntries = [Some \<lparr>ann_Offset = 10, ann_Bytes = ''v''\<rparr>,
                          Some \<lparr>ann_Offset = 20, ann_Bytes = '' ''\<rparr>, None],
            AnnEntriesLMIndex = [0, - 1, - 1]\<rparr>, 0, 0, True)"
  by (simp add: findSelectedAndUpdateAnnEntries_def ex_file3_def ex_file_def ex_ev_def ex_msg_def
      numeral_3_eq_3 findBody_def at_def setAt_def searchK_def Search_def Search_loop.simps
      annotation_def emptyAnnotation_def build_def Let_def)

theorem findSelectedAndUpdateAnnEntries_resolves_witness:
  "length (LinesMsgs ex_file3) \<le> length (AnnEntries ex_file3)
   \<and> length (LinesMsgs ex_file3) \<le> length (AnnEntriesLMIndex ex_file3)
   \<and> list_all (\<lambda>lm. sorted_wrt (<) (map arrivalIndex (lineMsgs lm))) (LinesMsgs ex_file3)
   \<and> (\<exists>file'. findSelectedAndUpdateAnnEntries id ex_file3 0 = Some (file', 0, 0, True)
        \<and> AnnEntriesLMIndex file' = [0, - 1, - 1]
        \<and> map (map_option ann_Bytes) (AnnEntries file') = [Some ''v'', Some '' '', None])"
proof -
  have h1: "length (LinesMsgs ex_file3) \<le> length (AnnEntries ex_file3)"
    and h2: "length (LinesMsgs ex_file3) \<le> length (AnnEntriesLMIndex ex_file3)"
    and h3: "\<forall>lm \<in> set (LinesMsgs ex_file3). sorted_wrt (<) (map arrivalIndex (lineMsgs lm))"
    by (simp_all add: ex_file3_def ex_file_def ex_ev_def)
  from findSelectedAndUpdateAnnEntries_resolves[OF h1 h2 h3, of id 0]
  obtain file' selLine selLineStep found where
    r: "findSelectedAndUpdateAnnEntries id ex_file3 0 = Some (file', selLine, selLineStep, found)"
    by blast
  have "findSelectedAndUpdateAnnEntries id ex_file3 0 = Some (file', 0, 0, True)
        \<and> AnnEntriesLMIndex file' = [0, - 1, - 1]
        \<and> map (map_option ann_Bytes) (AnnEntries file') = [Some ''v'', Some '' '', None]"
    using r unfolding ex_file3_eval by auto
  then show ?thesis using h1 h2 h3 by (auto simp add: list_all_iff)
qed

subsection \<open>Events\<close>

lemma handleLineMsg_error:
  assumes "handleLineMsg di u = Some (di', Some e)"
  shows "di' = di \<and> isIndexError e"
  using assms
  by (auto simp: handleLineMsg_def Let_def split: if_splits option.splits)

lemma handleLineMsg_success:
  assumes "handleLineMsg di u = Some (di', None)"
  shows "\<exists>file w.
      0 \<le> FileIndex u \<and> FileIndex u < int (length (Files di))
      \<and> Files di ! nat (FileIndex u) = Some file
      \<and> 0 \<le> DebugIndex u \<and> DebugIndex u < int (length (LinesMsgs file))
      \<and> LinesMsgs file ! nat (DebugIndex u) = w
      \<and> lastArrivalIndex di' = lastArrivalIndex di + 1
      \<and> Files di' = (Files di)[nat (FileIndex u) :=
            Some (file\<lparr>LinesMsgs := (LinesMsgs file)[nat (DebugIndex u) :=
               w\<lparr>lineMsgs := lineMsgs w @
                  [\<lparr>arrivalIndex = lastArrivalIndex di + 1, dbgLineMsg = u,
                    itemBytes = None, cachedAnn = None\<rparr>]\<rparr>]\<rparr>)]
      \<and> sel_arrivalIndex (selected di') =
           (if sel_arrivalIndex (selected di) = lastArrivalIndex di
            then lastArrivalIndex di + 1 else sel_arrivalIndex (selected di))
      \<and> Afds di' = Afds di \<and> filesIndexM di' = filesIndexM di
      \<and> FsCaseInsensitive di' = FsCaseInsensitive di"
  using assms
  by (auto simp: handleLineMsg_def Let_def at_def split: if_splits option.splits)


lemma handleLineMsg_index_inv:
  assumes ok: "handleLineMsg di u = Some (di', None)" and inv: "index_inv di"
  shows "index_inv di'"
proof -
  define la where "la = lastArrivalIndex di"
  define f where "f = nat (FileIndex u)"
  define d where "d = nat (DebugIndex u)"
  from handleLineMsg_success[OF ok] obtain fl w where
    fb: "f < length (Files di)" and ff: "Files di ! f = Some fl"
    and db: "d < length (LinesMsgs fl)" and ww: "LinesMsgs fl ! d = w"
    and la': "lastArrivalIndex di' = la + 1"
    and fs': "Files di' = (Files di)[f := Some (fl\<lparr>LinesMsgs := (LinesMsgs fl)[d :=
               w\<lparr>lineMsgs := lineMsgs w @
                  [\<lparr>arrivalIndex = la + 1, dbgLineMsg = u, itemBytes = None, cachedAnn = None\<rparr>]\<rparr>]\<rparr>)]"
    unfolding la_def f_def d_def by auto
  have old: "sorted_wrt (<) (slotIdx (LinesMsgs g ! li))
             \<and> (\<forall>a \<in> set (slotIdx (LinesMsgs g ! li)). 0 \<le> a \<and> a \<le> la)"
    if "fi < length (Files di)" "Files di ! fi = Some g" "li < length (LinesMsgs g)" for fi g li
    using inv that unfolding index_inv_def la_def by blast
  have la0: "- 1 \<le> la" using inv unfolding index_inv_def la_def by simp
  have new: "sorted_wrt (<) (slotIdx (LinesMsgs g ! li))
             \<and> (\<forall>a \<in> set (slotIdx (LinesMsgs g ! li)). 0 \<le> a \<and> a \<le> la + 1)"
    if h: "fi < length (Files di')" "Files di' ! fi = Some g" "li < length (LinesMsgs g)" for fi g li
  proof (cases "fi = f")
    case False
    then have "Files di ! fi = Some g" "fi < length (Files di)" using h fs' by simp_all
    from old[OF this(2) this(1) h(3)] show ?thesis by auto
  next
    case True
    then have g: "g = fl\<lparr>LinesMsgs := (LinesMsgs fl)[d :=
               w\<lparr>lineMsgs := lineMsgs w @
                  [\<lparr>arrivalIndex = la + 1, dbgLineMsg = u, itemBytes = None, cachedAnn = None\<rparr>]\<rparr>]\<rparr>"
      using h fs' fb by simp
    then have lb: "li < length (LinesMsgs fl)" using h(3) by simp
    show ?thesis
    proof (cases "li = d")
      case False
      then have "LinesMsgs g ! li = LinesMsgs fl ! li" using g by simp
      with old[OF fb ff lb] show ?thesis by auto
    next
      case True
      then have e: "slotIdx (LinesMsgs g ! li) = slotIdx w @ [la + 1]"
        using g db by (simp add: slotIdx_def)
      from old[OF fb ff db] ww have o: "sorted_wrt (<) (slotIdx w)"
        "\<forall>a \<in> set (slotIdx w). 0 \<le> a \<and> a \<le> la" by auto
      show ?thesis unfolding e using o la0 by (auto simp: sorted_wrt_append)
    qed
  qed
  show ?thesis unfolding index_inv_def la' using la0 new by auto
qed

lemma handleLineMsg_lastStored:
  assumes ok: "handleLineMsg di u = Some (di', None)"
  shows "lastStored di' u = Some (lastArrivalIndex di + 1)"
proof -
  from handleLineMsg_success[OF ok] obtain fl w where
    h: "0 \<le> FileIndex u" "FileIndex u < int (length (Files di))"
      "0 \<le> DebugIndex u" "DebugIndex u < int (length (LinesMsgs fl))"
      "Files di' = (Files di)[nat (FileIndex u) :=
            Some (fl\<lparr>LinesMsgs := (LinesMsgs fl)[nat (DebugIndex u) :=
               w\<lparr>lineMsgs := lineMsgs w @
                  [\<lparr>arrivalIndex = lastArrivalIndex di + 1, dbgLineMsg = u,
                    itemBytes = None, cachedAnn = None\<rparr>]\<rparr>]\<rparr>)]"
    by auto
  then show ?thesis by (simp add: lastStored_def at_def)
qed

lemma handleLineMsg_cursor_inv:
  assumes ok: "handleLineMsg di u = Some (di', None)" and inv: "cursor_inv di"
    and la: "- 1 \<le> lastArrivalIndex di"
  shows "cursor_inv di'"
proof -
  from handleLineMsg_success[OF ok] have
    "lastArrivalIndex di' = lastArrivalIndex di + 1"
    "sel_arrivalIndex (selected di') =
           (if sel_arrivalIndex (selected di) = lastArrivalIndex di
            then lastArrivalIndex di + 1 else sel_arrivalIndex (selected di))"
    by auto
  then show ?thesis using inv la unfolding cursor_inv_def by (auto split: if_splits)
qed

lemma applyEvents_general:
  "applyEvents di us = Some (di', log) \<Longrightarrow> index_inv di \<Longrightarrow>
     assigned log = map (\<lambda>i. lastArrivalIndex di + 1 + int i) [0..<length (assigned log)]
     \<and> lastArrivalIndex di' = lastArrivalIndex di + int (length (assigned log))
     \<and> length log = length us
     \<and> index_inv di'"
proof (induction us arbitrary: di log)
  case Nil
  then show ?case by (simp add: assigned_def)
next
  case (Cons u us)
  from Cons.prems(1) obtain d1 e where s1: "handleLineMsg di u = Some (d1, e)"
    by (auto split: option.splits)
  show ?case
  proof (cases e)
    case (Some err)
    with s1 have same: "d1 = di" using handleLineMsg_error by blast
    from Cons.prems(1) s1 Some obtain log1 where
      r: "applyEvents d1 us = Some (di', log1)" and l: "log = None # log1"
      by (auto split: option.splits)
    from Cons.IH[OF r[unfolded same] Cons.prems(2)] l show ?thesis
      by (simp add: assigned_def)
  next
    case None
    with s1 have ok: "handleLineMsg di u = Some (d1, None)" by simp
    from Cons.prems(1) ok obtain log1 where
      r: "applyEvents d1 us = Some (di', log1)" and l: "log = lastStored d1 u # log1"
      by (auto split: option.splits)
    have i1: "index_inv d1" by (rule handleLineMsg_index_inv[OF ok Cons.prems(2)])
    have la1: "lastArrivalIndex d1 = lastArrivalIndex di + 1"
      using handleLineMsg_success[OF ok] by auto
    have st: "lastStored d1 u = Some (lastArrivalIndex di + 1)"
      by (rule handleLineMsg_lastStored[OF ok])
    have al: "assigned log = (lastArrivalIndex di + 1) # assigned log1"
      using l st by (simp add: assigned_def)
    from Cons.IH[OF r i1] have
      a1: "assigned log1 = map (\<lambda>i. lastArrivalIndex d1 + 1 + int i) [0..<length (assigned log1)]"
      and b1: "lastArrivalIndex di' = lastArrivalIndex d1 + int (length (assigned log1))"
      and c1: "length log1 = length us" and d1: "index_inv di'" by auto
    have "map (\<lambda>i. lastArrivalIndex di + 1 + int i) [0..<Suc (length (assigned log1))]
          = (lastArrivalIndex di + 1) # map (\<lambda>i. lastArrivalIndex d1 + 1 + int i) [0..<length (assigned log1)]"
      unfolding la1 by (simp add: upt_conv_Cons map_Suc_upt[symmetric] del: upt_Suc)
    then have "assigned log = map (\<lambda>i. lastArrivalIndex di + 1 + int i) [0..<length (assigned log)]"
      using al a1 by simp
    then show ?thesis using al b1 c1 d1 la1 l by simp
  qed
qed

text \<open>
  C2. From an index whose counter is \<open>-1\<close>, a sequence of \<^verbatim>\<open>handleLineMsg\<close> calls none of which
  panics assigns the arrival indices 0, 1, 2, ... in call order to the events it stores, one
  per accepted call, and the counter ends at their number minus one. A call that returns an
  error returns an index error and leaves the whole index as it was, the counter included;
  a call that succeeds advances the counter by one and stores the event under the new
  value at the end of its line slot. Afterwards every line slot holds its events by strictly
  increasing arrival index.
\<close>

theorem applyEvent_arrival_indices:
  fixes di :: "'i GDDataIndex"
  assumes "index_inv di" and "lastArrivalIndex di = - 1"
    and "applyEvents di us = Some (di', log)"
  shows "assigned log = map int [0..<length (assigned log)]
    \<and> length log = length us
    \<and> lastArrivalIndex di' = int (length (assigned log)) - 1
    \<and> (\<forall>(d :: 'i GDDataIndex) u d1 e.
          handleLineMsg d u = Some (d1, Some e) \<longrightarrow> d1 = d \<and> isIndexError e)
    \<and> (\<forall>(d :: 'i GDDataIndex) u d1. handleLineMsg d u = Some (d1, None) \<longrightarrow>
          lastArrivalIndex d1 = lastArrivalIndex d + 1
          \<and> lastStored d1 u = Some (lastArrivalIndex d + 1))
    \<and> index_inv di'"
proof -
  from applyEvents_general[OF assms(3) assms(1)] assms(2)
  have a: "assigned log = map (\<lambda>i. int i) [0..<length (assigned log)]"
    and b: "lastArrivalIndex di' = int (length (assigned log)) - 1"
    and c: "length log = length us" and d: "index_inv di'"
    by simp_all
  have e: "\<forall>(d :: 'i GDDataIndex) u d1 e. handleLineMsg d u = Some (d1, Some e) \<longrightarrow> d1 = d \<and> isIndexError e"
    using handleLineMsg_error by blast
  have f: "\<forall>(d :: 'i GDDataIndex) u d1. handleLineMsg d u = Some (d1, None) \<longrightarrow>
          lastArrivalIndex d1 = lastArrivalIndex d + 1
          \<and> lastStored d1 u = Some (lastArrivalIndex d + 1)"
  proof (intro allI impI)
    fix d :: "'i GDDataIndex" and u d1
    assume ok: "handleLineMsg d u = Some (d1, None)"
    from handleLineMsg_success[OF ok] handleLineMsg_lastStored[OF ok]
    show "lastArrivalIndex d1 = lastArrivalIndex d + 1
          \<and> lastStored d1 u = Some (lastArrivalIndex d + 1)" by auto
  qed
  from a b c d e f show ?thesis by simp
qed

theorem applyEvent_arrival_indices_witness:
  "index_inv ex_di1 \<and> lastArrivalIndex ex_di1 = - 1
   \<and> applyEvents ex_di1 [ex_msg 0 10, ex_msg 5 0, ex_msg 1 20, ex_msg 0 10]
        = Some (ex_di3, [Some 0, None, Some 1, Some 2])
   \<and> assigned [Some 0, None, Some 1, Some 2] = [0, 1, 2]
   \<and> lastArrivalIndex ex_di3 = 2
   \<and> handleLineMsg ex_di1a (ex_msg 5 0) = Some (ex_di1a, Some (BadDebugIndex 5 3))
   \<and> index_inv ex_di3"
proof -
  have h2: "lastArrivalIndex ex_di1 = - 1" by (simp add: ex_di1_def ex_index_def)
  note t = applyEvent_arrival_indices[OF ex_di1_inv h2 ex_applyEvents]
  have "assigned [Some 0, None, Some 1, Some 2] = [0, 1, 2]"
    by (simp add: assigned_def)
  moreover from t have "index_inv ex_di3" by blast
  moreover from t have "lastArrivalIndex ex_di3 = int (length (assigned [Some 0, None, Some 1, Some (2::int)])) - 1"
    by blast
  then have "lastArrivalIndex ex_di3 = 2" by (simp add: assigned_def)
  ultimately show ?thesis using ex_di1_inv h2 ex_applyEvents ex_step_bad by simp
qed

subsection \<open>The gesture Clear\<close>

lemma NewGDFileMsgs_length: "NewGDFileMsgs (int n) =
   Some \<lparr>LinesMsgs = replicate n \<lparr>lineMsgs = []\<rparr>, AnnEntries = replicate n None,
         AnnEntriesLMIndex = replicate n 0\<rparr>"
  by (simp add: NewGDFileMsgs_def make_slice_def)

lemma clearFiles_Some:
  "clearFiles fs = Some fs' \<Longrightarrow> None \<notin> set fs \<and> fs' = map (map_option emptied) fs"
  by (induction fs arbitrary: fs')
     (auto simp: NewGDFileMsgs_length emptied_def split: option.splits)

lemma clearFiles_None: "clearFiles fs = None \<Longrightarrow> None \<in> set fs"
  by (induction fs) (auto simp: NewGDFileMsgs_length split: option.splits)

lemma ex_clear: "selectAnnotation2 (Some ex_di3) RootSelAnnTypeClear = Some (Some ex_di1, True)"
  by (simp add: selectAnnotation2_def clearMsgs_def ex_di3_def ex_file3_def ex_di1_def ex_index_def
      ex_file_def ex_sel_def NewGDFileMsgs_def make_slice_def numeral_3_eq_3 Let_def)

text \<open>
  C3, as the code has it. The gesture Clear runs \<^verbatim>\<open>clearMsgs\<close>: it sets the cursor to \<open>-1\<close>,
  sets the arrival counter to \<open>-1\<close> and replaces every file by one with as many line slots, all
  empty, and fresh caches; the file table (\<^verbatim>\<open>Afds\<close>, the name map), the number of files and
  the resolved coordinates of the selection stay, and the gesture reports a change. It
  panics when an entry of \<^verbatim>\<open>Files\<close> is \<^verbatim>\<open>nil\<close>.
\<close>

theorem clearSelection_clears_events:
  "(None \<notin> set (Files di) \<longrightarrow>
      selectAnnotation2 (Some di) RootSelAnnTypeClear =
        Some (Some (di\<lparr>Files := map (map_option emptied) (Files di),
                        lastArrivalIndex := - 1,
                        selected := (selected di)\<lparr>sel_arrivalIndex := - 1\<rparr>\<rparr>), True))
   \<and> (None \<in> set (Files di) \<longrightarrow> selectAnnotation2 (Some di) RootSelAnnTypeClear = None)"
proof (intro conjI impI)
  assume n: "None \<notin> set (Files di)"
  then have "clearFiles (Files di) \<noteq> None" using clearFiles_None by blast
  then obtain fs where fs: "clearFiles (Files di) = Some fs" by auto
  with clearFiles_Some have "fs = map (map_option emptied) (Files di)" by blast
  with fs show "selectAnnotation2 (Some di) RootSelAnnTypeClear =
        Some (Some (di\<lparr>Files := map (map_option emptied) (Files di),
                        lastArrivalIndex := - 1,
                        selected := (selected di)\<lparr>sel_arrivalIndex := - 1\<rparr>\<rparr>), True)"
    by (simp add: selectAnnotation2_def clearMsgs_def Let_def)
next
  assume "None \<in> set (Files di)"
  then have "clearFiles (Files di) = None" using clearFiles_Some by (cases "clearFiles (Files di)") auto
  then show "selectAnnotation2 (Some di) RootSelAnnTypeClear = None"
    by (simp add: selectAnnotation2_def clearMsgs_def)
qed

theorem clearSelection_clears_events_witness:
  "None \<notin> set (Files ex_di3)
   \<and> selectAnnotation2 (Some ex_di3) RootSelAnnTypeClear = Some (Some ex_di1, True)
   \<and> sel_arrivalIndex (selected ex_di1) = - 1"
proof -
  have h: "None \<notin> set (Files ex_di3)" by (simp add: ex_di3_def ex_index_def)
  have e: "ex_di3\<lparr>Files := map (map_option emptied) (Files ex_di3), lastArrivalIndex := - 1,
                 selected := (selected ex_di3)\<lparr>sel_arrivalIndex := - 1\<rparr>\<rparr> = ex_di1"
    by (simp add: ex_di3_def ex_file3_def ex_di1_def ex_index_def ex_file_def ex_sel_def emptied_def
        numeral_3_eq_3)
  from clearSelection_clears_events[of ex_di3] h
  have "selectAnnotation2 (Some ex_di3) RootSelAnnTypeClear = Some (Some ex_di1, True)"
    unfolding e by blast
  then show ?thesis using h by (simp add: ex_di1_def ex_index_def ex_sel_def)
qed

text \<open>
  C3 as stated fails: in the example, Clear takes the counter from 2 to \<open>-1\<close> and empties the
  line slots that held the arrival indices 0, 2 and 1.
\<close>

theorem clearSelection_counterexample:
  "selectAnnotation2 (Some ex_di3) RootSelAnnTypeClear = Some (Some ex_di1, True)
   \<and> lastArrivalIndex ex_di3 = 2 \<and> lastArrivalIndex ex_di1 = - 1
   \<and> Files ex_di3 = [Some ex_file3] \<and> Files ex_di1 = [Some (ex_file [] [] [])]
   \<and> map slotIdx (LinesMsgs ex_file3) = [[0, 2], [1], []]
   \<and> map slotIdx (LinesMsgs (ex_file [] [] [])) = [[], [], []]"
  using ex_clear
  by (simp add: ex_di3_def ex_file3_def ex_di1_def ex_index_def ex_file_def ex_ev_def slotIdx_def)

subsection \<open>Errors in the ingestion loop\<close>

lemma ex_handle_bad_meta:
  "handleMsg id ex_cmd (Some ex_di0) (MsgFilesData [ex_afd_bad])
     = Some (Some (ex_di0\<lparr>Afds := [ex_afd_bad], filesIndexM := [''a.go'' \<mapsto> 1], Files := [None]\<rparr>),
             Some (BadFileIndexAtInit 1 1), [])"
  by (simp add: handleMsg_def gdi_handleFilesDataMsg_def handleFilesDataMsg_def ex_di0_def
      ex_afd_bad_def ex_afd_def FilesIndexKey_def)

lemma ex_handle_meta_after_bad:
  "handleMsg id ex_cmd
     (Some (ex_di0\<lparr>Afds := [ex_afd_bad], filesIndexM := [''a.go'' \<mapsto> 1], Files := [None]\<rparr>))
     (MsgFilesData [ex_afd])
     = Some (Some ex_di1, None, [SentRequestStart])"
  by (simp add: handleMsg_def gdi_handleFilesDataMsg_def handleFilesDataMsg_def ex_di0_def ex_di1_def
      ex_index_def ex_afd_def FilesIndexKey_def NewGDFileMsgs_def make_slice_def setAt_def
      ex_file_def ex_cmd_def numeral_3_eq_3)

lemma ex_handle_event:
  "handleMsg id ex_cmd (Some ex_di1) (MsgLine (ex_msg 0 10)) = Some (Some ex_di1a, None, [])"
  by (simp add: handleMsg_def gdi_handleLineMsg_def ex_step1)

lemma ex_handle_bad_event:
  "handleMsg id ex_cmd (Some ex_di1a) (MsgLine (ex_msg 5 0))
     = Some (Some ex_di1a, Some (BadDebugIndex 5 3), [])"
  by (simp add: handleMsg_def gdi_handleLineMsg_def ex_step_bad)

lemma ex_handle_event2:
  "handleMsg id ex_cmd (Some ex_di1a) (MsgLine (ex_msg 1 20)) = Some (Some ex_di2, None, [])"
  by (simp add: handleMsg_def gdi_handleLineMsg_def ex_step2)

text \<open>
  C4, as the code has it. Whatever error \<^verbatim>\<open>handleMsg\<close> returns for a received message, the
  index error of a file-metadata message included, the loop writes it to the output stream
  after the requests the message caused, arms the timer and goes on with what its selects
  take next; it does not return. An error for a single event message is an index error and
  leaves the index as it was: the event is dropped. An index error for a file-metadata
  message sends no start request.
\<close>

theorem ingestion_error_is_logged_and_loop_goes_on:
  "(handleMsg toLower cmd (ls_gdi s) m = Some (gdi', Some e, reqs) \<longrightarrow>
      clientMsgsLoop toLower cmd (Received m # sched) s =
        clientMsgsLoop toLower cmd sched
          (s\<lparr>ls_gdi := gdi', ls_updatec := True, ls_trace := ls_trace s @ reqs @ [WriteError e]\<rparr>))
   \<and> (handleMsg toLower cmd (Some di) (MsgLine u) = Some (gdi1, Some e1, reqs1) \<longrightarrow>
        gdi1 = Some di \<and> reqs1 = [] \<and> isIndexError e1)
   \<and> (handleMsg toLower cmd (Some di) (MsgFilesData fdm) = Some (gdi2, Some e2, reqs2)
        \<and> isIndexError e2 \<longrightarrow> reqs2 = [])"
proof (intro conjI impI)
  assume "handleMsg toLower cmd (ls_gdi s) m = Some (gdi', Some e, reqs)"
  then show "clientMsgsLoop toLower cmd (Received m # sched) s =
        clientMsgsLoop toLower cmd sched
          (s\<lparr>ls_gdi := gdi', ls_updatec := True, ls_trace := ls_trace s @ reqs @ [WriteError e]\<rparr>)"
    by (cases s) (simp add: Let_def)
next
  assume h: "handleMsg toLower cmd (Some di) (MsgLine u) = Some (gdi1, Some e1, reqs1)"
  then obtain d1 where "handleLineMsg di u = Some (d1, Some e1)" "gdi1 = Some d1" "reqs1 = []"
    by (auto simp: handleMsg_def gdi_handleLineMsg_def split: option.splits)
  with handleLineMsg_error[of di u d1 e1]
  show "gdi1 = Some di" "reqs1 = []" "isIndexError e1" by simp_all
next
  assume "handleMsg toLower cmd (Some di) (MsgFilesData fdm) = Some (gdi2, Some e2, reqs2)
        \<and> isIndexError e2"
  then show "reqs2 = []"
    by (auto simp: handleMsg_def gdi_handleFilesDataMsg_def split: option.splits)
qed

theorem ingestion_error_is_logged_and_loop_goes_on_witness:
  "handleMsg id ex_cmd (Some ex_di1a) (MsgLine (ex_msg 5 0))
     = Some (Some ex_di1a, Some (BadDebugIndex 5 3), [])
   \<and> isIndexError (BadDebugIndex 5 3)
   \<and> clientMsgsLoop id ex_cmd [Received (MsgLine (ex_msg 5 0)), Received (MsgLine (ex_msg 1 20))]
        \<lparr>ls_gdi = Some ex_di1a, ls_updatec = False, ls_trace = []\<rparr>
       = Some (\<lparr>ls_gdi = Some ex_di2, ls_updatec = True,
                 ls_trace = [WriteError (BadDebugIndex 5 3)]\<rparr>, False)
   \<and> handleMsg id ex_cmd (Some ex_di0) (MsgFilesData [ex_afd_bad])
     = Some (Some (ex_di0\<lparr>Afds := [ex_afd_bad], filesIndexM := [''a.go'' \<mapsto> 1], Files := [None]\<rparr>),
             Some (BadFileIndexAtInit 1 1), [])"
proof -
  let ?s = "\<lparr>ls_gdi = Some ex_di1a, ls_updatec = False, ls_trace = []\<rparr> :: string loop_state"
  have h: "handleMsg id ex_cmd (ls_gdi ?s) (MsgLine (ex_msg 5 0))
     = Some (Some ex_di1a, Some (BadDebugIndex 5 3), [])"
    using ex_handle_bad_event by simp
  from ingestion_error_is_logged_and_loop_goes_on[of id ex_cmd ?s "MsgLine (ex_msg 5 0)"
      "Some ex_di1a" "BadDebugIndex 5 3" "[]" "[Received (MsgLine (ex_msg 1 20))]"] h
  have "clientMsgsLoop id ex_cmd [Received (MsgLine (ex_msg 5 0)), Received (MsgLine (ex_msg 1 20))] ?s
        = clientMsgsLoop id ex_cmd [Received (MsgLine (ex_msg 1 20))]
            (?s\<lparr>ls_gdi := Some ex_di1a, ls_updatec := True,
                ls_trace := ls_trace ?s @ [] @ [WriteError (BadDebugIndex 5 3)]\<rparr>)"
    by blast
  then have "clientMsgsLoop id ex_cmd [Received (MsgLine (ex_msg 5 0)), Received (MsgLine (ex_msg 1 20))] ?s
       = Some (\<lparr>ls_gdi = Some ex_di2, ls_updatec = True,
                 ls_trace = [WriteError (BadDebugIndex 5 3)]\<rparr>, False)"
    by (simp add: ex_handle_event2)
  then show ?thesis using ex_handle_bad_event ex_handle_bad_meta by simp
qed

text \<open>
  C4 as stated fails: after the index error of a metadata message the loop handles a second
  metadata message, sends the start request and stores an event; it has not returned.
\<close>

theorem metadata_error_does_not_abort_counterexample:
  "clientMsgsLoop id ex_cmd
      [Received (MsgFilesData [ex_afd_bad]), Received (MsgFilesData [ex_afd]),
       Received (MsgLine (ex_msg 0 10))] ex_loop0
     = Some (\<lparr>ls_gdi = Some ex_di1a, ls_updatec = True,
               ls_trace = [WriteError (BadFileIndexAtInit 1 1), SentRequestStart]\<rparr>, False)
   \<and> isIndexError (BadFileIndexAtInit 1 1)"
  by (simp add: ex_loop0_def ex_handle_bad_meta ex_handle_meta_after_bad ex_handle_event)


subsection \<open>Events through the ingestion loop\<close>

text \<open>
  The ingestion loop, given single event messages only, does to the index what
  \<^const>\<open>applyEvents\<close> does, and keeps waiting.
\<close>

lemma clientMsgsLoop_received:
  assumes "handleMsg toLower cmd (ls_gdi s) m = Some (g, e, reqs)"
  shows "\<exists>s3. clientMsgsLoop toLower cmd (Received m # sched) s = clientMsgsLoop toLower cmd sched s3
           \<and> ls_gdi s3 = g"
proof (cases e)
  case None
  with assms show ?thesis by (cases "ls_updatec s") (auto simp: Let_def)
next
  case (Some x)
  with assms show ?thesis by (cases "ls_updatec s") (auto simp: Let_def)
qed

lemma clientMsgsLoop_events:
  "applyEvents di us = Some (di', log) \<Longrightarrow> ls_gdi s = Some di \<Longrightarrow>
     \<exists>s'. clientMsgsLoop toLower cmd (map (\<lambda>u. Received (MsgLine u)) us) s = Some (s', False)
          \<and> ls_gdi s' = Some di'"
proof (induction us arbitrary: di s log)
  case Nil
  then show ?case by simp
next
  case (Cons u us)
  from Cons.prems(1) obtain d1 e where h: "handleLineMsg di u = Some (d1, e)"
    by (auto split: option.splits)
  with Cons.prems(1) obtain log1 where r: "applyEvents d1 us = Some (di', log1)"
    by (cases e) (auto split: option.splits)
  have m: "handleMsg toLower cmd (ls_gdi s) (MsgLine u) = Some (Some d1, e, [])"
    using h Cons.prems(2) by (simp add: handleMsg_def gdi_handleLineMsg_def)
  from clientMsgsLoop_received[OF m, of "map (\<lambda>u. Received (MsgLine u)) us"] obtain s3 where
    st: "clientMsgsLoop toLower cmd (Received (MsgLine u) # map (\<lambda>u. Received (MsgLine u)) us) s
          = clientMsgsLoop toLower cmd (map (\<lambda>u. Received (MsgLine u)) us) s3"
    and g: "ls_gdi s3 = Some d1" by blast
  from Cons.IH[OF r g] st show ?case by simp
qed

subsection \<open>Following the latest event\<close>

text \<open>
  C5. A \<^verbatim>\<open>handleLineMsg\<close> call that succeeds moves the cursor to the arrival index it has just
  assigned when the cursor was at the last arrival index before the call, and leaves the
  cursor where it was otherwise. When three events are accepted by an index whose counter
  and cursor are both \<open>-1\<close>, the cursor ends at 2.
\<close>

theorem applyEvent_follow_latest:
  "(handleLineMsg di u = Some (di', None) \<longrightarrow>
      lastArrivalIndex di' = lastArrivalIndex di + 1
      \<and> lastStored di' u = Some (lastArrivalIndex di')
      \<and> sel_arrivalIndex (selected di') =
          (if sel_arrivalIndex (selected di) = lastArrivalIndex di
           then lastArrivalIndex di' else sel_arrivalIndex (selected di)))
   \<and> (lastArrivalIndex d0 = - 1 \<and> sel_arrivalIndex (selected d0) = - 1
      \<and> handleLineMsg d0 u1 = Some (d1, None)
      \<and> handleLineMsg d1 u2 = Some (d2, None)
      \<and> handleLineMsg d2 u3 = Some (d3, None)
      \<longrightarrow> sel_arrivalIndex (selected d3) = 2 \<and> lastArrivalIndex d3 = 2)"
proof (intro conjI impI)
  assume ok: "handleLineMsg di u = Some (di', None)"
  from handleLineMsg_success[OF ok] show "lastArrivalIndex di' = lastArrivalIndex di + 1" by auto
  from handleLineMsg_success[OF ok] handleLineMsg_lastStored[OF ok]
  show "lastStored di' u = Some (lastArrivalIndex di')" by auto
  from handleLineMsg_success[OF ok]
  show "sel_arrivalIndex (selected di') =
          (if sel_arrivalIndex (selected di) = lastArrivalIndex di
           then lastArrivalIndex di' else sel_arrivalIndex (selected di))" by auto
next
  assume h: "lastArrivalIndex d0 = - 1 \<and> sel_arrivalIndex (selected d0) = - 1
      \<and> handleLineMsg d0 u1 = Some (d1, None)
      \<and> handleLineMsg d1 u2 = Some (d2, None)
      \<and> handleLineMsg d2 u3 = Some (d3, None)"
  then have s1: "handleLineMsg d0 u1 = Some (d1, None)" and s2: "handleLineMsg d1 u2 = Some (d2, None)"
    and s3: "handleLineMsg d2 u3 = Some (d3, None)" by simp_all
  from handleLineMsg_success[OF s1] h
  have a: "lastArrivalIndex d1 = 0" "sel_arrivalIndex (selected d1) = 0" by auto
  from handleLineMsg_success[OF s2] a
  have b: "lastArrivalIndex d2 = 1" "sel_arrivalIndex (selected d2) = 1" by auto
  from handleLineMsg_success[OF s3] b
  show "sel_arrivalIndex (selected d3) = 2" "lastArrivalIndex d3 = 2" by auto
qed

theorem applyEvent_follow_latest_witness:
  "NewGDDataIndex False = Some ex_di0
   \<and> handleFilesDataMsg id ex_di0 [ex_afd] = Some (ex_di1, None)
   \<and> lastArrivalIndex ex_di1 = - 1 \<and> sel_arrivalIndex (selected ex_di1) = - 1
   \<and> handleLineMsg ex_di1 (ex_msg 0 10) = Some (ex_di1a, None)
   \<and> handleLineMsg ex_di1a (ex_msg 1 20) = Some (ex_di2, None)
   \<and> handleLineMsg ex_di2 (ex_msg 0 10) = Some (ex_di3, None)
   \<and> sel_arrivalIndex (selected ex_di1a) = 0
   \<and> sel_arrivalIndex (selected ex_di3) = 2 \<and> lastArrivalIndex ex_di3 = 2"
proof -
  have h: "lastArrivalIndex ex_di1 = - 1" "sel_arrivalIndex (selected ex_di1) = - 1"
    by (simp_all add: ex_di1_def ex_index_def ex_sel_def)
  from applyEvent_follow_latest[of ex_di1 "ex_msg 0 10" ex_di1a ex_di1 "ex_msg 0 10" ex_di1a
      "ex_msg 1 20" ex_di2 "ex_msg 0 10" ex_di3] h ex_step1 ex_step2 ex_step3
  have "sel_arrivalIndex (selected ex_di1a) = 0
      \<and> sel_arrivalIndex (selected ex_di3) = 2 \<and> lastArrivalIndex ex_di3 = 2"
    by simp
  then show ?thesis using h ex_new ex_meta ex_step1 ex_step2 ex_step3 by simp
qed

subsection \<open>The gestures First, Last, Prev and Next\<close>

lemma cursor_inv_NewGDDataIndex: "NewGDDataIndex b = Some di \<Longrightarrow> cursor_inv di"
  by (auto simp: NewGDDataIndex_def clearMsgs_def cursor_inv_def)

lemma cursor_inv_clearMsgs: "clearMsgs di = Some di' \<Longrightarrow> cursor_inv di'"
  by (auto simp: clearMsgs_def cursor_inv_def Let_def split: option.splits)

lemma cursor_inv_selectFirst: "cursor_inv (fst (selectFirst di))"
  by (simp add: selectFirst_def cursor_inv_def)

lemma cursor_inv_selectLast: "cursor_inv di \<Longrightarrow> cursor_inv (fst (selectLast di))"
  by (auto simp: selectLast_def cursor_inv_def)

lemma cursor_inv_selectNext: "cursor_inv di \<Longrightarrow> cursor_inv (fst (selectNext di))"
  by (auto simp: selectNext_def cursor_inv_def)

lemma cursor_inv_selectPrev: "cursor_inv di \<Longrightarrow> cursor_inv (fst (selectPrev di))"
  by (auto simp: selectPrev_def cursor_inv_def)

lemma ex_di3_cursor_inv: "cursor_inv ex_di3"
  by (simp add: cursor_inv_def ex_di3_def ex_index_def ex_sel_def)

lemma ex_di1_cursor_inv: "cursor_inv ex_di1"
  by (simp add: cursor_inv_def ex_di1_def ex_index_def ex_sel_def)

text \<open>
  C6, as the code has it. First sets the cursor to 0 and reports a change. Last sets the cursor
  to the last arrival index when the cursor is below it, leaves it where it is otherwise,
  and reports a change in both cases. Next moves the cursor up by one and reports a change
  exactly when the cursor is below the last arrival index; Prev moves it down by one and
  reports a change exactly when the cursor is above 0; otherwise they change nothing and
  report no change. In a state that satisfies \<^const>\<open>cursor_inv\<close>, as every state the index
  reaches does, Next and Prev move only from a cursor between 0 and the last arrival index,
  and Next at cursor \<open>-1\<close> does nothing. Next followed by Prev, from a cursor \<open>c\<close> with
  \<open>0 \<le> c\<close> below the last arrival index, gives back the state it started from.
\<close>

theorem moveSelection_behaviour:
  "selectFirst di = (di\<lparr>selected := (selected di)\<lparr>sel_arrivalIndex := 0\<rparr>\<rparr>, True)
   \<and> selectLast di =
       (if sel_arrivalIndex (selected di) < lastArrivalIndex di
        then di\<lparr>selected := (selected di)\<lparr>sel_arrivalIndex := lastArrivalIndex di\<rparr>\<rparr> else di,
        True)
   \<and> selectNext di =
       (if sel_arrivalIndex (selected di) < lastArrivalIndex di
        then (di\<lparr>selected := (selected di)\<lparr>sel_arrivalIndex := sel_arrivalIndex (selected di) + 1\<rparr>\<rparr>,
              True)
        else (di, False))
   \<and> selectPrev di =
       (if 0 < sel_arrivalIndex (selected di)
        then (di\<lparr>selected := (selected di)\<lparr>sel_arrivalIndex := sel_arrivalIndex (selected di) - 1\<rparr>\<rparr>,
              True)
        else (di, False))
   \<and> (cursor_inv di \<longrightarrow>
        (snd (selectNext di) \<longrightarrow>
           0 \<le> sel_arrivalIndex (selected di)
           \<and> sel_arrivalIndex (selected di) \<le> lastArrivalIndex di)
        \<and> (snd (selectPrev di) \<longrightarrow>
           0 \<le> sel_arrivalIndex (selected di)
           \<and> sel_arrivalIndex (selected di) \<le> lastArrivalIndex di)
        \<and> (sel_arrivalIndex (selected di) = - 1 \<longrightarrow> selectNext di = (di, False)))
   \<and> (0 \<le> sel_arrivalIndex (selected di) \<and> sel_arrivalIndex (selected di) < lastArrivalIndex di
        \<longrightarrow> selectPrev (fst (selectNext di)) = (di, True))"
  by (auto simp: selectFirst_def selectLast_def selectNext_def selectPrev_def cursor_inv_def)

theorem moveSelection_behaviour_witness:
  "cursor_inv ex_di3 \<and> cursor_inv ex_di1
   \<and> selectPrev ex_di3 = (ex_index 2 1 ex_file3, True)
   \<and> selectNext (ex_index 2 1 ex_file3) = (ex_di3, True)
   \<and> selectPrev (fst (selectNext (ex_index 2 1 ex_file3))) = (ex_index 2 1 ex_file3, True)
   \<and> selectNext ex_di3 = (ex_di3, False)
   \<and> sel_arrivalIndex (selected ex_di1) = - 1
   \<and> selectNext ex_di1 = (ex_di1, False)
   \<and> selectFirst ex_di3 = (ex_index 2 0 ex_file3, True)
   \<and> selectPrev (ex_index 2 0 ex_file3) = (ex_index 2 0 ex_file3, False)
   \<and> selectLast (ex_index 2 0 ex_file3) = (ex_di3, True)"
proof -
  have a: "sel_arrivalIndex (selected ex_di1) = - 1"
    "0 \<le> sel_arrivalIndex (selected (ex_index 2 1 ex_file3))
     \<and> sel_arrivalIndex (selected (ex_index 2 1 ex_file3)) < lastArrivalIndex (ex_index 2 1 ex_file3)"
    by (simp_all add: ex_di1_def ex_index_def ex_sel_def)
  have e: "selectPrev ex_di3 = (ex_index 2 1 ex_file3, True)"
    "selectNext (ex_index 2 1 ex_file3) = (ex_di3, True)"
    "selectNext ex_di3 = (ex_di3, False)"
    "selectFirst ex_di3 = (ex_index 2 0 ex_file3, True)"
    "selectPrev (ex_index 2 0 ex_file3) = (ex_index 2 0 ex_file3, False)"
    "selectLast (ex_index 2 0 ex_file3) = (ex_di3, True)"
    by (simp_all add: selectFirst_def selectLast_def selectNext_def selectPrev_def
        ex_di3_def ex_index_def ex_sel_def)
  from moveSelection_behaviour[of "ex_index 2 1 ex_file3"] a(2)
  have r: "selectPrev (fst (selectNext (ex_index 2 1 ex_file3))) = (ex_index 2 1 ex_file3, True)"
    by blast
  from moveSelection_behaviour[of ex_di1] ex_di1_cursor_inv a(1)
  have n: "selectNext ex_di1 = (ex_di1, False)" by blast
  from e r n a(1) ex_di3_cursor_inv ex_di1_cursor_inv show ?thesis by simp
qed

text \<open>
  C6 as stated fails for Last: on a fresh index the gesture First puts the cursor at 0 while
  the last arrival index is \<open>-1\<close>, and Last then leaves the cursor at 0.
\<close>

theorem moveSelection_counterexample:
  "NewGDDataIndex False = Some ex_di0
   \<and> selectFirst ex_di0 = (ex_di0_first, True)
   \<and> selectLast ex_di0_first = (ex_di0_first, True)
   \<and> sel_arrivalIndex (selected ex_di0_first) = 0
   \<and> lastArrivalIndex ex_di0_first = - 1"
  using ex_new
  by (simp add: selectFirst_def selectLast_def ex_di0_first_def ex_di0_def ex_sel_def)

subsection \<open>File metadata\<close>

lemma fold_map_upd:
  "fold (\<lambda>x m. m(k x \<mapsto> v x)) xs m0 = m0 ++ map_of (rev (map (\<lambda>x. (k x, v x)) xs))"
proof (induction xs arbitrary: m0)
  case Nil
  show ?case by simp
next
  case (Cons x xs)
  let ?M = "map_of (rev (map (\<lambda>x. (k x, v x)) xs))"
  have 1: "fold (\<lambda>x m. m(k x \<mapsto> v x)) (x # xs) m0 = (m0(k x \<mapsto> v x)) ++ ?M"
    unfolding fold_Cons comp_apply by (rule Cons.IH)
  have 2: "(m0(k x \<mapsto> v x)) ++ ?M = m0 ++ ([k x \<mapsto> v x] ++ ?M)"
    by (rule ext) (simp add: map_add_def split: option.splits)
  have 3: "map_of (rev (map (\<lambda>x. (k x, v x)) (x # xs))) = [k x \<mapsto> v x] ++ ?M"
    by (simp only: list.map rev.simps map_of_append) simp
  show ?case unfolding 1 2 3 ..
qed

lemma NewGDFileMsgs_Some:
  "NewGDFileMsgs n = Some u \<Longrightarrow> 0 \<le> n \<and> (\<forall>w \<in> set (LinesMsgs u). lineMsgs w = [])
     \<and> length (LinesMsgs u) = nat n"
  by (auto simp: NewGDFileMsgs_def make_slice_def split: if_splits)

lemma NewGDFileMsgs_nonneg: "0 \<le> n \<Longrightarrow> \<exists>u. NewGDFileMsgs n = Some u"
  by (simp add: NewGDFileMsgs_def make_slice_def)

lemma initFiles_keep:
  "initFiles as fs = Some (fs', e) \<Longrightarrow> \<forall>a \<in> set as. afd_FileIndex a \<noteq> i
     \<Longrightarrow> at fs' i = at fs i"
proof (induction as arbitrary: fs)
  case Nil then show ?case by simp
next
  case (Cons a as)
  show ?case
  proof (cases "afd_FileIndex a \<ge> int (length fs)")
    case True with Cons.prems show ?thesis by auto
  next
    case False
    with Cons.prems(1) obtain v fs1 where
      "setAt fs (afd_FileIndex a) (Some v) = Some fs1" "initFiles as fs1 = Some (fs', e)"
      by (auto split: option.splits)
    moreover from this(1) Cons.prems(2) have "at fs1 i = at fs i"
      by (auto simp: setAt_def at_def split: if_splits)
    ultimately show ?thesis using Cons.IH[of fs1] Cons.prems(2) by simp
  qed
qed

lemma initFiles_result:
  "initFiles afds files = Some (files', err) \<Longrightarrow>
     length files' = length files
     \<and> (err = None \<longleftrightarrow> (\<forall>afd \<in> set afds. afd_FileIndex afd < int (length files)))
     \<and> (\<forall>e. err = Some e \<longrightarrow> isIndexError e)
     \<and> (list_all freshOrNil files \<longrightarrow> list_all freshOrNil files')
     \<and> (err = None \<longrightarrow> (\<forall>afd \<in> set afds. \<exists>u. at files' (afd_FileIndex afd) = Some (Some u)))"
proof (induction afds arbitrary: files)
  case Nil
  then show ?case by simp
next
  case (Cons afd afds)
  show ?case
  proof (cases "afd_FileIndex afd \<ge> int (length files)")
    case True
    with Cons.prems show ?thesis by auto
  next
    case False
    with Cons.prems obtain u files1 where
      u: "NewGDFileMsgs (DebugLen afd) = Some u"
      and s: "setAt files (afd_FileIndex afd) (Some u) = Some files1"
      and r: "initFiles afds files1 = Some (files', err)"
      by (auto split: option.splits)
    from s have f1: "files1 = files[nat (afd_FileIndex afd) := Some u]"
      and rng: "0 \<le> afd_FileIndex afd" "afd_FileIndex afd < int (length files)"
      by (auto simp: setAt_def split: if_splits)
    then have l1: "length files1 = length files" by simp
    note IH = Cons.IH[OF r, unfolded l1]
    have fr: "list_all freshOrNil files \<longrightarrow> list_all freshOrNil files1"
    proof
      assume a: "list_all freshOrNil files"
      have "freshOrNil (Some u)" using NewGDFileMsgs_Some[OF u]
        by (simp add: freshOrNil_def list_all_iff)
      with a show "list_all freshOrNil files1" unfolding f1 list_all_iff
        by (auto dest: set_update_subset_insert[THEN subsetD])
    qed
    have stay: "\<exists>u. at files' (afd_FileIndex afd) = Some (Some u)" if "err = None"
    proof (cases "\<exists>afd' \<in> set afds. afd_FileIndex afd' = afd_FileIndex afd")
      case True
      with IH that show ?thesis by auto
    next
      case False
      from initFiles_keep[OF r] False have "at files' (afd_FileIndex afd) = at files1 (afd_FileIndex afd)"
        by blast
      then show ?thesis using f1 rng by (simp add: at_def)
    qed
    from IH fr stay False rng show ?thesis by auto
  qed
qed

lemma initFiles_total:
  fixes files :: "'i GDFileMsgs option list"
  shows "\<forall>afd \<in> set afds. 0 \<le> afd_FileIndex afd \<and> 0 \<le> DebugLen afd \<Longrightarrow>
     \<exists>r. initFiles afds files = Some r"
proof (induction afds arbitrary: files)
  case Nil
  show ?case by simp
next
  case (Cons afd afds)
  show ?case
  proof (cases "afd_FileIndex afd \<ge> int (length files)")
    case True
    then show ?thesis by simp
  next
    case False
    from Cons.prems obtain u :: "'i GDFileMsgs" where u: "NewGDFileMsgs (DebugLen afd) = Some u"
      using NewGDFileMsgs_nonneg[of "DebugLen afd"] by auto
    from False Cons.prems have s: "setAt files (afd_FileIndex afd) (Some u)
        = Some (files[nat (afd_FileIndex afd) := Some u])"
      by (simp add: setAt_def)
    from Cons.IH[of "files[nat (afd_FileIndex afd) := Some u]"] Cons.prems
    show ?thesis using False u s by simp
  qed
qed


lemma ex_meta_again: "handleFilesDataMsg id ex_di3 [ex_afd] = Some (ex_di3_meta, None)"
  by (simp add: handleFilesDataMsg_def ex_di3_def ex_di3_meta_def ex_index_def ex_afd_def
       FilesIndexKey_def NewGDFileMsgs_def make_slice_def setAt_def ex_file_def numeral_3_eq_3)

lemma ex_meta_bad:
  "handleFilesDataMsg id ex_di0 [ex_afd\<lparr>afd_FileIndex := 1\<rparr>]
     = Some (ex_di0\<lparr>Afds := [ex_afd\<lparr>afd_FileIndex := 1\<rparr>], filesIndexM := [''a.go'' \<mapsto> 1],
                   Files := [None]\<rparr>, Some (BadFileIndexAtInit 1 1))"
  by (simp add: handleFilesDataMsg_def ex_di0_def ex_afd_def FilesIndexKey_def)

text \<open>
  C7, as the code has it. A call of \<^verbatim>\<open>handleFilesDataMsg\<close> that returns has replaced the file
  table: \<^verbatim>\<open>Afds\<close> is the list of descriptors, the name map holds for each key the file index
  of the last descriptor with that key, and \<^verbatim>\<open>Files\<close> has one entry per descriptor, each
  \<^verbatim>\<open>nil\<close> or a file without events; none of them depends on the table before the call. It
  returns an error exactly when some descriptor's file index is not below the number of
  descriptors, the error is an index error, and without an error every descriptor's file
  index holds a file. The arrival counter and the selection are left as they were. When
  no descriptor has a negative file index or a negative slot count the call returns.
\<close>

theorem applyFileMetadata_behaviour:
  "(handleFilesDataMsg toLower di fdm = Some (di', err) \<longrightarrow>
       Afds di' = fdm
     \<and> filesIndexM di' =
         map_of (rev (map (\<lambda>afd. (FilesIndexKey toLower di (Filename afd), afd_FileIndex afd)) fdm))
     \<and> length (Files di') = length fdm
     \<and> list_all freshOrNil (Files di')
     \<and> (err = None \<longleftrightarrow> (\<forall>afd \<in> set fdm. afd_FileIndex afd < int (length fdm)))
     \<and> (\<forall>e. err = Some e \<longrightarrow> isIndexError e)
     \<and> (err = None \<longrightarrow> (\<forall>afd \<in> set fdm. \<exists>u. at (Files di') (afd_FileIndex afd) = Some (Some u)))
     \<and> lastArrivalIndex di' = lastArrivalIndex di
     \<and> selected di' = selected di
     \<and> FsCaseInsensitive di' = FsCaseInsensitive di)
   \<and> ((\<forall>afd \<in> set fdm. 0 \<le> afd_FileIndex afd \<and> 0 \<le> DebugLen afd) \<longrightarrow>
        handleFilesDataMsg toLower di fdm \<noteq> None)"
proof (intro conjI impI)
  assume h: "handleFilesDataMsg toLower di fdm = Some (di', err)"
  define files0 :: "'a GDFileMsgs option list" where "files0 = replicate (length fdm) None"
  from h obtain files where
    i: "initFiles fdm files0 = Some (files, err)"
    and d: "di' = di\<lparr>Afds := fdm,
              filesIndexM := fold (\<lambda>afd m. m(FilesIndexKey toLower (di\<lparr>Afds := fdm\<rparr>) (Filename afd)
                                       \<mapsto> afd_FileIndex afd)) fdm Map.empty,
              Files := files\<rparr>"
    by (auto simp: handleFilesDataMsg_def Let_def files0_def split: option.splits)
  have k: "FilesIndexKey toLower (di\<lparr>Afds := fdm\<rparr>) = FilesIndexKey toLower di"
    by (rule ext) (simp add: FilesIndexKey_def)
  have f0: "list_all freshOrNil files0" "length files0 = length fdm"
    by (simp_all add: files0_def freshOrNil_def list_all_iff)
  note R = initFiles_result[OF i, unfolded f0(2)]
  show "Afds di' = fdm" using d by simp
  show "filesIndexM di' =
         map_of (rev (map (\<lambda>afd. (FilesIndexKey toLower di (Filename afd), afd_FileIndex afd)) fdm))"
    using d unfolding k by (simp add: fold_map_upd)
  show "length (Files di') = length fdm" using d R by simp
  show "list_all freshOrNil (Files di')" using d R f0(1) by simp
  show "err = None \<longleftrightarrow> (\<forall>afd \<in> set fdm. afd_FileIndex afd < int (length fdm))" using R by blast
  show "\<forall>e. err = Some e \<longrightarrow> isIndexError e" using R by blast
  show "\<forall>afd \<in> set fdm. \<exists>u. at (Files di') (afd_FileIndex afd) = Some (Some u)" if "err = None"
    using R that d by simp
  show "lastArrivalIndex di' = lastArrivalIndex di" "selected di' = selected di"
    "FsCaseInsensitive di' = FsCaseInsensitive di" using d by simp_all
next
  assume "\<forall>afd \<in> set fdm. 0 \<le> afd_FileIndex afd \<and> 0 \<le> DebugLen afd"
  from initFiles_total[OF this, of "replicate (length fdm) None"]
  show "handleFilesDataMsg toLower di fdm \<noteq> None"
    by (auto simp: handleFilesDataMsg_def Let_def split: option.splits)
qed

theorem applyFileMetadata_behaviour_witness:
  "handleFilesDataMsg id ex_di0 [ex_afd] = Some (ex_di1, None)
   \<and> list_all (\<lambda>afd. 0 \<le> afd_FileIndex afd \<and> 0 \<le> DebugLen afd) [ex_afd]
   \<and> list_all (\<lambda>afd. afd_FileIndex afd < int (length [ex_afd])) [ex_afd]
   \<and> Afds ex_di1 = [ex_afd] \<and> length (Files ex_di1) = 1
   \<and> lastArrivalIndex ex_di1 = lastArrivalIndex ex_di0
   \<and> handleFilesDataMsg id ex_di0 [ex_afd\<lparr>afd_FileIndex := 1\<rparr>]
       = Some (ex_di0\<lparr>Afds := [ex_afd\<lparr>afd_FileIndex := 1\<rparr>], filesIndexM := [''a.go'' \<mapsto> 1],
                     Files := [None]\<rparr>, Some (BadFileIndexAtInit 1 1))
   \<and> isIndexError (BadFileIndexAtInit 1 1)"
proof -
  from applyFileMetadata_behaviour[of id ex_di0 "[ex_afd]" ex_di1 None] ex_meta
  have "Afds ex_di1 = [ex_afd] \<and> length (Files ex_di1) = 1
        \<and> lastArrivalIndex ex_di1 = lastArrivalIndex ex_di0"
    by simp
  moreover
  from applyFileMetadata_behaviour[of id ex_di0 "[ex_afd\<lparr>afd_FileIndex := 1\<rparr>]"
      "ex_di0\<lparr>Afds := [ex_afd\<lparr>afd_FileIndex := 1\<rparr>], filesIndexM := [''a.go'' \<mapsto> 1],
                     Files := [None]\<rparr>" "Some (BadFileIndexAtInit 1 1)"] ex_meta_bad
  have "isIndexError (BadFileIndexAtInit 1 1)" by blast
  ultimately show ?thesis using ex_meta ex_meta_bad by (simp add: ex_afd_def)
qed

text \<open>
  C7 as stated fails: a metadata message that arrives after the three events of the example
  leaves the counter and the cursor at 2.
\<close>

theorem applyFileMetadata_counterexample:
  "handleFilesDataMsg id ex_di3 [ex_afd] = Some (ex_di3_meta, None)
   \<and> lastArrivalIndex ex_di3 = 2 \<and> sel_arrivalIndex (selected ex_di3) = 2
   \<and> lastArrivalIndex ex_di3_meta = 2 \<and> sel_arrivalIndex (selected ex_di3_meta) = 2"
  using ex_meta_again by (simp add: ex_di3_def ex_di3_meta_def ex_index_def ex_sel_def)

subsection \<open>The refresh when the loop ends\<close>

lemma ex_handle_connected:
  "handleMsg id ex_cmd (Some ex_di0) (MsgString ''connected'')
     = Some (Some ex_di0, None, [SentRequestFileSetPositions])"
  by (simp add: handleMsg_def ex_cmd_def)

text \<open>
  C8, as the code has it. When a select of the loop takes the done context or the closed
  message channel, the loop returns at once; before it returns it asks for one refresh, not
  delayed by the timer, exactly when \<^verbatim>\<open>updatec\<close> is not \<^verbatim>\<open>nil\<close>, that is when a message has been
  received since the last refresh, and it asks for none when \<^verbatim>\<open>updatec\<close> is \<^verbatim>\<open>nil\<close>.
\<close>

theorem final_refresh_only_when_timer_armed:
  "clientMsgsLoop toLower cmd (CtxDone # sched) s =
     Some (s\<lparr>ls_updatec := False,
             ls_trace := ls_trace s @ (if ls_updatec s then [UpdateUI] else [])\<rparr>, True)
   \<and> clientMsgsLoop toLower cmd (ChannelClosed # sched) s =
     Some (s\<lparr>ls_updatec := False,
             ls_trace := ls_trace s @ (if ls_updatec s then [UpdateUI] else [])\<rparr>, True)"
  by (simp add: loop_updateUI_def)

text \<open>
  C8 as stated fails: a loop that is cancelled before any message asks for no refresh, and a
  loop whose timer has delivered since the last message asks for none when the channel is
  closed.
\<close>

theorem final_refresh_counterexample:
  "clientMsgsLoop id ex_cmd [CtxDone] ex_loop0 = Some (ex_loop0, True)
   \<and> ls_trace ex_loop0 = []
   \<and> clientMsgsLoop id ex_cmd [Received (MsgString ''connected''), TimerFired, ChannelClosed]
        ex_loop0
       = Some (\<lparr>ls_gdi = Some ex_di0, ls_updatec = False,
                 ls_trace = [SentRequestFileSetPositions, UpdateUI]\<rparr>, True)"
  by (simp add: ex_loop0_def loop_updateUI_def ex_handle_connected)

subsection \<open>Edited files\<close>

lemma ex_file3_eval2:
  "findSelectedAndUpdateAnnEntries id ex_file3 2 = Some (ex_file3_at2, 0, 1, True)"
  by (simp add: findSelectedAndUpdateAnnEntries_def ex_file3_def ex_file3_at2_def ex_file_def
      ex_ev_def ex_msg_def numeral_3_eq_3 findBody_def at_def setAt_def searchK_def Search_def
      Search_loop.simps annotation_def emptyAnnotation_def build_def Let_def)

lemma ex_refresh_edited:
  "updateInfoUI id id ex_di3 ex_info_edited
     = Some (ex_di3_edited,
             [UpdateAnnotationsRowState ''a.go'' True, UpdateAnnotationsEditedRowState ''a.go'' True,
              SetAnnotations 7 False 0 []])"
  by (simp add: updateInfoUI_def FilesIndex_def FilesIndexKey_def ex_di3_def ex_di3_edited_def
      ex_index_def ex_sel_def ex_info_edited_def ex_afd_def at_def ex_file3_eval2
      clearDrawerAnn_def Let_def)

text \<open>
  C9. Let a view show a file of the index whose present content does not have the size
  and hash of its descriptor. A refresh of the view (\<^verbatim>\<open>updateInfoUI\<close>) that returns makes these
  calls whatever events the index holds: the view has annotations, the view is edited, and
  every row of the view gets the annotations switched off with no entries. The refresh
  keeps the cursor; when it finds the selected event in that file it records the file, line
  and position and sets the flag \<^verbatim>\<open>edited\<close> of the selection, and the reveal that follows (for
  a cursor that is not negative) makes one call, the warning with the file's name and the
  cursor, and opens nothing. In general \<^verbatim>\<open>showSelectedLine\<close> on a selection flagged
  \<^verbatim>\<open>edited\<close> with a cursor that is not negative only warns.
\<close>

theorem edited_file_is_marked_and_not_revealed:
  "(FilesIndex toLower di (info_Name info) = Some findex
      \<and> at (Afds di) findex = Some afd
      \<and> \<not> info_EqualToBytesHash info (FileSize afd) (FileHash afd)
      \<and> updateInfoUI toLower sfy di info = Some (di', calls)
    \<longrightarrow>
      calls = [UpdateAnnotationsRowState (info_Name info) True,
               UpdateAnnotationsEditedRowState (info_Name info) True]
              @ map (\<lambda>erow. SetAnnotations erow False 0 []) (info_ERows info)
      \<and> Afds di' = Afds di
      \<and> lastArrivalIndex di' = lastArrivalIndex di
      \<and> sel_arrivalIndex (selected di') = sel_arrivalIndex (selected di)
      \<and> (\<exists>file file' selLine selLineStep found.
            at (Files di) findex = Some (Some file)
            \<and> findSelectedAndUpdateAnnEntries sfy file (sel_arrivalIndex (selected di))
                = Some (file', selLine, selLineStep, found)
            \<and> (found \<longrightarrow> sel_edited (selected di') \<and> sel_fileIndex (selected di') = findex
                  \<and> sel_lineIndex (selected di') = selLine
                  \<and> sel_lineStepIndex (selected di') = selLineStep
                  \<and> (0 \<le> sel_arrivalIndex (selected di) \<longrightarrow>
                       updateUIShowLine toLower sfy di [info]
                         = Some (di', calls @ [Errorf_selection_at_edited_row (Filename afd)
                                                 (sel_arrivalIndex (selected di))])))
            \<and> (\<not> found \<longrightarrow> selected di' = selected di)))
   \<and> (sel_edited (selected d) \<and> 0 \<le> sel_arrivalIndex (selected d)
       \<and> at (Afds d) (sel_fileIndex (selected d)) = Some a
       \<longrightarrow> showSelectedLine d
            = Some [Errorf_selection_at_edited_row (Filename a) (sel_arrivalIndex (selected d))])"
proof (intro conjI impI)
  assume h: "FilesIndex toLower di (info_Name info) = Some findex
      \<and> at (Afds di) findex = Some afd
      \<and> \<not> info_EqualToBytesHash info (FileSize afd) (FileHash afd)
      \<and> updateInfoUI toLower sfy di info = Some (di', calls)"
  then have fi: "FilesIndex toLower di (info_Name info) = Some findex"
    and af: "at (Afds di) findex = Some afd"
    and ed: "\<not> info_EqualToBytesHash info (FileSize afd) (FileHash afd)"
    and up: "updateInfoUI toLower sfy di info = Some (di', calls)" by simp_all
  from up fi obtain fl fl' sl ss fd where
    f: "at (Files di) findex = Some (Some fl)"
    and r: "findSelectedAndUpdateAnnEntries sfy fl (sel_arrivalIndex (selected di))
                = Some (fl', sl, ss, fd)"
    by (auto simp: updateInfoUI_def split: option.splits)
  have af1: "at (Afds (di\<lparr>Files := (Files di)[nat findex := Some fl']\<rparr>)) findex = Some afd"
    using af by simp
  have af2: "at (Afds (di\<lparr>Files := (Files di)[nat findex := Some fl'],
                selected := (selected di)\<lparr>sel_edited := False, sel_fileIndex := findex,
                   sel_lineIndex := sl, sel_lineStepIndex := ss\<rparr>\<rparr>)) findex = Some afd"
    using af by simp
  have all: "calls = [UpdateAnnotationsRowState (info_Name info) True,
               UpdateAnnotationsEditedRowState (info_Name info) True] @ clearDrawerAnn info
      \<and> Afds di' = Afds di \<and> lastArrivalIndex di' = lastArrivalIndex di
      \<and> sel_arrivalIndex (selected di') = sel_arrivalIndex (selected di)
      \<and> (fd \<longrightarrow> sel_edited (selected di') \<and> sel_fileIndex (selected di') = findex
                  \<and> sel_lineIndex (selected di') = sl
                  \<and> sel_lineStepIndex (selected di') = ss)
      \<and> (\<not> fd \<longrightarrow> selected di' = selected di)"
  proof (cases fd)
    case True
    with up fi f r af2 ed show ?thesis by (auto simp: updateInfoUI_def Let_def)
  next
    case False
    with up fi f r af1 ed show ?thesis by (auto simp: updateInfoUI_def Let_def)
  qed
  show "calls = [UpdateAnnotationsRowState (info_Name info) True,
               UpdateAnnotationsEditedRowState (info_Name info) True]
              @ map (\<lambda>erow. SetAnnotations erow False 0 []) (info_ERows info)"
    using all by (simp add: clearDrawerAnn_def)
  show A: "Afds di' = Afds di" using all by simp
  show "lastArrivalIndex di' = lastArrivalIndex di" using all by simp
  show C: "sel_arrivalIndex (selected di') = sel_arrivalIndex (selected di)" using all by simp
  have F: "sel_edited (selected di') \<and> sel_fileIndex (selected di') = findex
                  \<and> sel_lineIndex (selected di') = sl
                  \<and> sel_lineStepIndex (selected di') = ss" if fd
    using all that by simp
  have S: "updateUIShowLine toLower sfy di [info]
             = Some (di', calls @ [Errorf_selection_at_edited_row (Filename afd)
                                                 (sel_arrivalIndex (selected di))])"
    if fd "0 \<le> sel_arrivalIndex (selected di)"
  proof -
    have "showSelectedLine di'
          = Some [Errorf_selection_at_edited_row (Filename afd) (sel_arrivalIndex (selected di))]"
      using F[OF that(1)] that(2) af A C by (simp add: showSelectedLine_def)
    then show ?thesis using up by (simp add: updateUIShowLine_def)
  qed
  have N: "selected di' = selected di" if "\<not> fd"
    using all that by simp
  from f r F S N
  show "\<exists>file file' selLine selLineStep found.
            at (Files di) findex = Some (Some file)
            \<and> findSelectedAndUpdateAnnEntries sfy file (sel_arrivalIndex (selected di))
                = Some (file', selLine, selLineStep, found)
            \<and> (found \<longrightarrow> sel_edited (selected di') \<and> sel_fileIndex (selected di') = findex
                  \<and> sel_lineIndex (selected di') = selLine
                  \<and> sel_lineStepIndex (selected di') = selLineStep
                  \<and> (0 \<le> sel_arrivalIndex (selected di) \<longrightarrow>
                       updateUIShowLine toLower sfy di [info]
                         = Some (di', calls @ [Errorf_selection_at_edited_row (Filename afd)
                                                 (sel_arrivalIndex (selected di))])))
            \<and> (\<not> found \<longrightarrow> selected di' = selected di)"
    by blast
next
  assume "sel_edited (selected d) \<and> 0 \<le> sel_arrivalIndex (selected d)
       \<and> at (Afds d) (sel_fileIndex (selected d)) = Some a"
  then show "showSelectedLine d
            = Some [Errorf_selection_at_edited_row (Filename a) (sel_arrivalIndex (selected d))]"
    by (simp add: showSelectedLine_def)
qed

theorem edited_file_is_marked_and_not_revealed_witness:
  "FilesIndex id ex_di3 (info_Name ex_info_edited) = Some 0
   \<and> at (Afds ex_di3) 0 = Some ex_afd
   \<and> \<not> info_EqualToBytesHash ex_info_edited (FileSize ex_afd) (FileHash ex_afd)
   \<and> updateInfoUI id id ex_di3 ex_info_edited
       = Some (ex_di3_edited,
               [UpdateAnnotationsRowState ''a.go'' True, UpdateAnnotationsEditedRowState ''a.go'' True,
                SetAnnotations 7 False 0 []])
   \<and> sel_edited (selected ex_di3_edited) \<and> sel_arrivalIndex (selected ex_di3_edited) = 2
   \<and> showSelectedLine ex_di3_edited = Some [Errorf_selection_at_edited_row ''a.go'' 2]"
proof -
  have h1: "FilesIndex id ex_di3 (info_Name ex_info_edited) = Some 0"
    by (simp add: FilesIndex_def FilesIndexKey_def ex_di3_def ex_index_def ex_info_edited_def)
  have h2: "at (Afds ex_di3) 0 = Some ex_afd" by (simp add: at_def ex_di3_def ex_index_def)
  have h3: "\<not> info_EqualToBytesHash ex_info_edited (FileSize ex_afd) (FileHash ex_afd)"
    by (simp add: ex_info_edited_def)
  have g: "sel_edited (selected ex_di3_edited) \<and> 0 \<le> sel_arrivalIndex (selected ex_di3_edited)
       \<and> at (Afds ex_di3_edited) (sel_fileIndex (selected ex_di3_edited)) = Some ex_afd"
    by (simp add: ex_di3_edited_def ex_index_def at_def)
  from edited_file_is_marked_and_not_revealed[of id ex_di3 ex_info_edited 0 ex_afd
      id ex_di3_edited "[UpdateAnnotationsRowState ''a.go'' True,
         UpdateAnnotationsEditedRowState ''a.go'' True, SetAnnotations 7 False 0 []]"
      ex_di3_edited ex_afd] g
  have "showSelectedLine ex_di3_edited
          = Some [Errorf_selection_at_edited_row (Filename ex_afd)
                    (sel_arrivalIndex (selected ex_di3_edited))]"
    by blast
  then have "showSelectedLine ex_di3_edited = Some [Errorf_selection_at_edited_row ''a.go'' 2]"
    by (simp add: ex_afd_def ex_di3_edited_def)
  then show ?thesis using h1 h2 h3 ex_refresh_edited g by (simp add: ex_di3_edited_def)
qed


subsection \<open>The per-line gesture Current on an empty line slot\<close>

lemma ex_di1_reached:
  "NewGDDataIndex False = Some ex_di0
   \<and> handleFilesDataMsg id ex_di0 [ex_afd] = Some (ex_di1, None)"
  using ex_new ex_meta by simp

text \<open>
  C10 is what the code should do and does not. After the metadata message of the example and
  before any event, \<^verbatim>\<open>currentAnnotationFileLine\<close> accepts line 0 of \<^verbatim>\<open>a.go\<close>, whose slot is empty and
  whose cached position is 0; \<^verbatim>\<open>selectCurrent\<close> with mode Current then reads
  \<^verbatim>\<open>line.lineMsgs[0]\<close> and panics, while the modes CurrentNext and CurrentPrev check the bounds
  and report no change.
\<close>

theorem selectCurrent_empty_slot_panics:
  "NewGDDataIndex False = Some ex_di0
   \<and> handleFilesDataMsg id ex_di0 [ex_afd] = Some (ex_di1, None)
   \<and> currentAnnotationFileLine id ex_di1 ''a.go'' 0
       = Some (Some (ex_file [] [] [], \<lparr>lineMsgs = []\<rparr>))
   \<and> selectCurrent id ex_di1 ''a.go'' 0 0 TASelAnnTypeCurrent = None
   \<and> selectCurrent id ex_di1 ''a.go'' 0 0 TASelAnnTypeCurrentNext = Some (ex_di1, False)
   \<and> selectCurrent id ex_di1 ''a.go'' 0 0 TASelAnnTypeCurrentPrev = Some (ex_di1, False)"
  using ex_di1_reached
  by (simp add: selectCurrent_def currentAnnotationFileLine_def FilesIndex_def FilesIndexKey_def
      ex_di1_def ex_index_def ex_file_def at_def Let_def)

subsection \<open>What holds in every state the index reaches\<close>

text \<open>
  Every method keeps \<^const>\<open>index_inv\<close>, \<^const>\<open>cursor_inv\<close> and \<^const>\<open>caches_inv\<close>, so they hold in
  every state of \<^const>\<open>reachable\<close>: the hypotheses under which the selection is resolved and
  the gestures are described above are those of the running program.
\<close>

lemma index_inv_same:
  "Files di' = Files di \<Longrightarrow> lastArrivalIndex di' = lastArrivalIndex di \<Longrightarrow> index_inv di' = index_inv di"
  by (simp add: index_inv_def)

lemma caches_inv_same: "Files di' = Files di \<Longrightarrow> caches_inv di' = caches_inv di"
  by (simp add: caches_inv_def)

lemma cursor_inv_same:
  "sel_arrivalIndex (selected di') = sel_arrivalIndex (selected di) \<Longrightarrow>
   lastArrivalIndex di' = lastArrivalIndex di \<Longrightarrow> cursor_inv di' = cursor_inv di"
  by (simp add: cursor_inv_def)

lemma index_inv_empty_slots:
  assumes "- 1 \<le> lastArrivalIndex di" and "list_all freshOrNil (Files di)"
  shows "index_inv di"
proof -
  have "sorted_wrt (<) (slotIdx (LinesMsgs fl ! li))
     \<and> (\<forall>a \<in> set (slotIdx (LinesMsgs fl ! li)). 0 \<le> a \<and> a \<le> lastArrivalIndex di)"
    if h: "fi < length (Files di)" "Files di ! fi = Some fl" "li < length (LinesMsgs fl)"
    for fi fl li
  proof -
    from h assms(2) have "freshOrNil (Some fl)" by (metis list_all_length)
    then have "lineMsgs (LinesMsgs fl ! li) = []"
      using h(3) by (simp add: freshOrNil_def list_all_length)
    then show ?thesis by (simp add: slotIdx_def)
  qed
  then show ?thesis unfolding index_inv_def using assms(1) by blast
qed

text \<open>Entries written by the loop of \<^verbatim>\<open>handleFilesDataMsg\<close> have caches as long as their slots.\<close>

lemma initFiles_caches:
  "initFiles afds files = Some (files', e) \<Longrightarrow>
   \<forall>f \<in> set files. \<forall>u. f = Some u \<longrightarrow> length (AnnEntries u) = length (LinesMsgs u)
        \<and> length (AnnEntriesLMIndex u) = length (LinesMsgs u) \<Longrightarrow>
   \<forall>f \<in> set files'. \<forall>u. f = Some u \<longrightarrow> length (AnnEntries u) = length (LinesMsgs u)
        \<and> length (AnnEntriesLMIndex u) = length (LinesMsgs u)"
proof (induction afds arbitrary: files)
  case Nil
  then show ?case by simp
next
  case (Cons afd afds)
  show ?case
  proof (cases "afd_FileIndex afd \<ge> int (length files)")
    case True
    with Cons.prems show ?thesis by auto
  next
    case False
    with Cons.prems(1) obtain u files1 where
      u: "NewGDFileMsgs (DebugLen afd) = Some u"
      and s: "setAt files (afd_FileIndex afd) (Some u) = Some files1"
      and r: "initFiles afds files1 = Some (files', e)"
      by (auto split: option.splits)
    from u have lu: "length (AnnEntries u) = length (LinesMsgs u)
        \<and> length (AnnEntriesLMIndex u) = length (LinesMsgs u)"
      by (auto simp: NewGDFileMsgs_def make_slice_def split: if_splits)
    from s have "files1 = files[nat (afd_FileIndex afd) := Some u]"
      by (auto simp: setAt_def split: if_splits)
    then have "set files1 \<subseteq> insert (Some u) (set files)" by (simp add: set_update_subset_insert)
    with Cons.prems(2) lu have
      "\<forall>f \<in> set files1. \<forall>u. f = Some u \<longrightarrow> length (AnnEntries u) = length (LinesMsgs u)
        \<and> length (AnnEntriesLMIndex u) = length (LinesMsgs u)" by auto
    from Cons.IH[OF r this] show ?thesis .
  qed
qed

lemma invs_NewGDDataIndex:
  "NewGDDataIndex b = Some di \<Longrightarrow> index_inv di \<and> cursor_inv di \<and> caches_inv di"
  by (auto simp: NewGDDataIndex_def clearMsgs_def index_inv_def cursor_inv_def caches_inv_def)

lemma handleFilesDataMsg_unfold:
  "handleFilesDataMsg toLower di fdm = Some (di', err) \<Longrightarrow>
     \<exists>files. initFiles fdm (replicate (length fdm) None) = Some (files, err)
       \<and> Files di' = files \<and> lastArrivalIndex di' = lastArrivalIndex di
       \<and> selected di' = selected di"
  by (auto simp: handleFilesDataMsg_def Let_def split: option.splits)

lemma invs_handleFilesDataMsg:
  assumes h: "handleFilesDataMsg toLower di fdm = Some (di', e)"
    and i: "index_inv di" and c: "cursor_inv di"
  shows "index_inv di' \<and> cursor_inv di' \<and> caches_inv di'"
proof -
  from handleFilesDataMsg_unfold[OF h] obtain files where
    r: "initFiles fdm (replicate (length fdm) None) = Some (files, e)"
    and f: "Files di' = files" and l: "lastArrivalIndex di' = lastArrivalIndex di"
    and s: "selected di' = selected di" by blast
  have "list_all freshOrNil (replicate (length fdm) (None :: 'a GDFileMsgs option))"
    by (simp add: list_all_iff freshOrNil_def)
  with initFiles_result[OF r] have fr: "list_all freshOrNil (Files di')" using f by simp
  have la: "- 1 \<le> lastArrivalIndex di'" using i l by (simp add: index_inv_def)
  have 1: "index_inv di'" by (rule index_inv_empty_slots[OF la fr])
  have 2: "cursor_inv di'" using c cursor_inv_same[of di' di] s l by simp
  have "\<forall>f \<in> set files. \<forall>u. f = Some u \<longrightarrow> length (AnnEntries u) = length (LinesMsgs u)
        \<and> length (AnnEntriesLMIndex u) = length (LinesMsgs u)"
    by (rule initFiles_caches[OF r]) simp
  then have 3: "caches_inv di'" unfolding caches_inv_def f by (metis nth_mem)
  from 1 2 3 show ?thesis by simp
qed

lemma invs_handleLineMsg:
  assumes h: "handleLineMsg di u = Some (di', e)"
    and i: "index_inv di" and c: "cursor_inv di" and k: "caches_inv di"
  shows "index_inv di' \<and> cursor_inv di' \<and> caches_inv di'"
proof (cases e)
  case (Some err)
  with h handleLineMsg_error[of di u di' err] have "di' = di" by simp
  with i c k show ?thesis by simp
next
  case None
  with h have ok: "handleLineMsg di u = Some (di', None)" by simp
  have la: "- 1 \<le> lastArrivalIndex di" using i by (simp add: index_inv_def)
  have 1: "index_inv di'" by (rule handleLineMsg_index_inv[OF ok i])
  have 2: "cursor_inv di'" by (rule handleLineMsg_cursor_inv[OF ok c la])
  from handleLineMsg_success[OF ok] obtain fl w where
    fb: "nat (FileIndex u) < length (Files di)" and ff: "Files di ! nat (FileIndex u) = Some fl"
    and fs': "Files di' = (Files di)[nat (FileIndex u) :=
            Some (fl\<lparr>LinesMsgs := (LinesMsgs fl)[nat (DebugIndex u) :=
               w\<lparr>lineMsgs := lineMsgs w @
                  [\<lparr>arrivalIndex = lastArrivalIndex di + 1, dbgLineMsg = u,
                    itemBytes = None, cachedAnn = None\<rparr>]\<rparr>]\<rparr>)]"
    by auto
  have 3: "caches_inv di'" unfolding caches_inv_def
  proof (intro allI impI)
    fix fi g assume a: "fi < length (Files di')" "Files di' ! fi = Some g"
    show "length (AnnEntries g) = length (LinesMsgs g)
        \<and> length (AnnEntriesLMIndex g) = length (LinesMsgs g)"
    proof (cases "fi = nat (FileIndex u)")
      case True
      with a fs' fb have "g = fl\<lparr>LinesMsgs := (LinesMsgs fl)[nat (DebugIndex u) :=
               w\<lparr>lineMsgs := lineMsgs w @
                  [\<lparr>arrivalIndex = lastArrivalIndex di + 1, dbgLineMsg = u,
                    itemBytes = None, cachedAnn = None\<rparr>]\<rparr>]\<rparr>" by simp
      moreover from k fb ff have "length (AnnEntries fl) = length (LinesMsgs fl)
        \<and> length (AnnEntriesLMIndex fl) = length (LinesMsgs fl)" by (simp add: caches_inv_def)
      ultimately show ?thesis by simp
    next
      case False
      with a fs' have "fi < length (Files di)" "Files di ! fi = Some g" by simp_all
      with k show ?thesis by (simp add: caches_inv_def)
    qed
  qed
  from 1 2 3 show ?thesis by simp
qed

lemma invs_clearMsgs:
  assumes h: "clearMsgs di = Some di'"
  shows "index_inv di' \<and> cursor_inv di' \<and> caches_inv di'"
proof -
  from h obtain fs where fs: "clearFiles (Files di) = Some fs" and
    d: "Files di' = fs" "lastArrivalIndex di' = - 1" "sel_arrivalIndex (selected di') = - 1"
    by (auto simp: clearMsgs_def Let_def split: option.splits)
  from clearFiles_Some[OF fs] have e: "fs = map (map_option emptied) (Files di)" by simp
  have fr: "list_all freshOrNil (Files di')"
    unfolding d e by (auto simp: list_all_iff freshOrNil_def emptied_def split: option.splits)
  have 1: "index_inv di'" by (rule index_inv_empty_slots[OF _ fr]) (simp add: d)
  have 2: "cursor_inv di'" by (simp add: cursor_inv_def d)
  have 3: "caches_inv di'" unfolding caches_inv_def d e
    by (auto simp: emptied_def)
  from 1 2 3 show ?thesis by simp
qed


lemma slotIdx_update_msg:
  "k < length (lineMsgs lm) \<Longrightarrow> arrivalIndex m = arrivalIndex (lineMsgs lm ! k) \<Longrightarrow>
     slotIdx (lm\<lparr>lineMsgs := (lineMsgs lm)[k := m]\<rparr>) = slotIdx lm"
  by (simp add: slotIdx_def map_update list_update_same_conv)

lemma map_slotIdx_update:
  "line < length ls \<Longrightarrow> slotIdx lm' = slotIdx (ls ! line) \<Longrightarrow>
     map slotIdx (ls[line := lm']) = map slotIdx ls"
  by (simp add: map_update list_update_same_conv)

lemma findBody_preserves:
  assumes "findBody sfy c line (fl, r) = Some (fl', r')"
  shows "map slotIdx (LinesMsgs fl') = map slotIdx (LinesMsgs fl)
     \<and> length (AnnEntries fl') = length (AnnEntries fl)
     \<and> length (AnnEntriesLMIndex fl') = length (AnnEntriesLMIndex fl)"
proof -
  from assms have b: "line < length (LinesMsgs fl)" "line < length (AnnEntries fl)"
    "line < length (AnnEntriesLMIndex fl)"
    by (auto simp: findBody_def at_def setAt_def Let_def case_prod_beta
        split: option.splits if_splits)
  obtain sl ss fd where r: "r = (sl, ss, fd)" by (cases r) auto
  from findBody_effect[OF b, of sfy c sl ss fd] assms r
  have e: "AnnEntriesLMIndex fl' = (AnnEntriesLMIndex fl)[line := searchK c (LinesMsgs fl ! line)]"
    "AnnEntries fl' = (AnnEntries fl)[line := annEntryOf sfy c (LinesMsgs fl ! line)]"
    by auto
  define lm where "lm = LinesMsgs fl ! line"
  have kr: "- 1 \<le> searchK c lm" "searchK c lm < int (length (lineMsgs lm))"
    using searchK_range[of c lm] by simp_all
  have atl: "at (LinesMsgs fl) (int line) = Some lm" using b by (simp add: at_def lm_def)
  have "map slotIdx (LinesMsgs fl') = map slotIdx (LinesMsgs fl)"
  proof (cases "searchK c lm < 0")
    case True
    show ?thesis
    proof (cases "lineMsgs lm = []")
      case True
      with \<open>searchK c lm < 0\<close> assms r b show ?thesis
        by (auto simp: findBody_def atl setAt_def Let_def)
    next
      case False
      then have s: "slotIdx (lm\<lparr>lineMsgs := (lineMsgs lm)[0 := snd (emptyAnnotation (lineMsgs lm ! 0))]\<rparr>)
                    = slotIdx lm"
        by (intro slotIdx_update_msg) simp_all
      have "LinesMsgs fl' = (LinesMsgs fl)[line :=
              lm\<lparr>lineMsgs := (lineMsgs lm)[0 := snd (emptyAnnotation (lineMsgs lm ! 0))]\<rparr>]"
        using \<open>searchK c lm < 0\<close> False assms r b
        by (auto simp: findBody_def atl setAt_def Let_def case_prod_beta)
      then show ?thesis using s b by (simp add: map_slotIdx_update lm_def)
    qed
  next
    case False
    then have k0: "0 \<le> searchK c lm" by simp
    then have kb: "nat (searchK c lm) < length (lineMsgs lm)" using kr by simp
    have atk: "at (lineMsgs lm) (searchK c lm) = Some (lineMsgs lm ! nat (searchK c lm))"
      using k0 kr by (simp add: at_def)
    have s: "slotIdx (lm\<lparr>lineMsgs := (lineMsgs lm)[nat (searchK c lm) :=
                 snd (annotation sfy (lineMsgs lm ! nat (searchK c lm)))]\<rparr>) = slotIdx lm"
      using kb by (intro slotIdx_update_msg) simp_all
    have "LinesMsgs fl' = (LinesMsgs fl)[line :=
              lm\<lparr>lineMsgs := (lineMsgs lm)[nat (searchK c lm) :=
                 snd (annotation sfy (lineMsgs lm ! nat (searchK c lm)))]\<rparr>]"
      using False assms r b
      by (auto simp: findBody_def atl atk setAt_def Let_def case_prod_beta split: if_splits)
    then show ?thesis using s b by (simp add: map_slotIdx_update lm_def)
  qed
  then show ?thesis using e by simp
qed

lemma findLoop_preserves:
  "findLoop sfy c ls (fl, r) = Some (fl', r') \<Longrightarrow>
     map slotIdx (LinesMsgs fl') = map slotIdx (LinesMsgs fl)
     \<and> length (AnnEntries fl') = length (AnnEntries fl)
     \<and> length (AnnEntriesLMIndex fl') = length (AnnEntriesLMIndex fl)"
proof (induction ls arbitrary: fl r)
  case Nil
  then show ?case by simp
next
  case (Cons line ls)
  from Cons.prems obtain f1 r1 where
    b: "findBody sfy c line (fl, r) = Some (f1, r1)" and l: "findLoop sfy c ls (f1, r1) = Some (fl', r')"
    by (auto split: option.splits)
  from findBody_preserves[OF b] Cons.IH[OF l] show ?case by simp
qed

lemma findSelectedAndUpdateAnnEntries_preserves:
  "findSelectedAndUpdateAnnEntries sfy fl c = Some (fl', r) \<Longrightarrow>
     map slotIdx (LinesMsgs fl') = map slotIdx (LinesMsgs fl)
     \<and> length (AnnEntries fl') = length (AnnEntries fl)
     \<and> length (AnnEntriesLMIndex fl') = length (AnnEntriesLMIndex fl)"
  unfolding findSelectedAndUpdateAnnEntries_def by (rule findLoop_preserves)


lemma updateInfoUI_unfold:
  assumes "updateInfoUI toLower sfy di info = Some (di', calls)"
  shows "lastArrivalIndex di' = lastArrivalIndex di
     \<and> sel_arrivalIndex (selected di') = sel_arrivalIndex (selected di)
     \<and> (Files di' = Files di
         \<or> (\<exists>findex fl fl' r. 0 \<le> findex \<and> nat findex < length (Files di)
               \<and> Files di ! nat findex = Some fl
               \<and> findSelectedAndUpdateAnnEntries sfy fl (sel_arrivalIndex (selected di)) = Some (fl', r)
               \<and> Files di' = (Files di)[nat findex := Some fl']))"
proof (cases "FilesIndex toLower di (info_Name info)")
  case None
  with assms show ?thesis by (simp add: updateInfoUI_def)
next
  case (Some findex)
  with assms obtain fl fl' sl ss fd where
    f: "at (Files di) findex = Some (Some fl)"
    and r: "findSelectedAndUpdateAnnEntries sfy fl (sel_arrivalIndex (selected di))
                = Some (fl', sl, ss, fd)"
    by (auto simp: updateInfoUI_def split: option.splits)
  from f have fb: "0 \<le> findex" "nat findex < length (Files di)" "Files di ! nat findex = Some fl"
    by (auto simp: at_def split: if_splits)
  have "lastArrivalIndex di' = lastArrivalIndex di
     \<and> sel_arrivalIndex (selected di') = sel_arrivalIndex (selected di)
     \<and> Files di' = (Files di)[nat findex := Some fl']"
    using assms Some f r
    by (cases fd) (auto simp: updateInfoUI_def Let_def split: option.splits if_splits)
  with fb r show ?thesis by blast
qed

lemma invs_updateInfoUI:
  assumes h: "updateInfoUI toLower sfy di info = Some (di', calls)"
    and i: "index_inv di" and c: "cursor_inv di" and k: "caches_inv di"
  shows "index_inv di' \<and> cursor_inv di' \<and> caches_inv di'"
proof -
  note U = updateInfoUI_unfold[OF h]
  have 2: "cursor_inv di'" using c cursor_inv_same[of di' di] U by simp
  from U have "Files di' = Files di
         \<or> (\<exists>findex fl fl' r. 0 \<le> findex \<and> nat findex < length (Files di)
               \<and> Files di ! nat findex = Some fl
               \<and> findSelectedAndUpdateAnnEntries sfy fl (sel_arrivalIndex (selected di)) = Some (fl', r)
               \<and> Files di' = (Files di)[nat findex := Some fl'])" by simp
  then show ?thesis
  proof
    assume "Files di' = Files di"
    with i k U 2 index_inv_same[of di' di] caches_inv_same[of di' di] show ?thesis by simp
  next
    assume "\<exists>findex fl fl' r. 0 \<le> findex \<and> nat findex < length (Files di)
               \<and> Files di ! nat findex = Some fl
               \<and> findSelectedAndUpdateAnnEntries sfy fl (sel_arrivalIndex (selected di)) = Some (fl', r)
               \<and> Files di' = (Files di)[nat findex := Some fl']"
    then obtain findex fl fl' r where
      fb: "nat findex < length (Files di)" and ff: "Files di ! nat findex = Some fl"
      and fr: "findSelectedAndUpdateAnnEntries sfy fl (sel_arrivalIndex (selected di)) = Some (fl', r)"
      and fs: "Files di' = (Files di)[nat findex := Some fl']" by blast
    from findSelectedAndUpdateAnnEntries_preserves[OF fr] have
      m: "map slotIdx (LinesMsgs fl') = map slotIdx (LinesMsgs fl)"
      and l1: "length (AnnEntries fl') = length (AnnEntries fl)"
      and l2: "length (AnnEntriesLMIndex fl') = length (AnnEntriesLMIndex fl)" by simp_all
    from m have ln: "length (LinesMsgs fl') = length (LinesMsgs fl)" by (rule map_eq_imp_length_eq)
    have nth: "slotIdx (LinesMsgs fl' ! li) = slotIdx (LinesMsgs fl ! li)" if "li < length (LinesMsgs fl)" for li
    proof -
      have "map slotIdx (LinesMsgs fl') ! li = map slotIdx (LinesMsgs fl) ! li" using m by simp
      then show ?thesis using that ln by simp
    qed
    have la: "lastArrivalIndex di' = lastArrivalIndex di" using U by simp
    have 1: "index_inv di'" unfolding index_inv_def la
    proof (intro conjI allI impI)
      show "- 1 \<le> lastArrivalIndex di" using i by (simp add: index_inv_def)
    next
      fix fi g li assume a: "fi < length (Files di')" "Files di' ! fi = Some g" "li < length (LinesMsgs g)"
      have "sorted_wrt (<) (slotIdx (LinesMsgs g ! li))
        \<and> (\<forall>a\<in>set (slotIdx (LinesMsgs g ! li)). 0 \<le> a \<and> a \<le> lastArrivalIndex di)"
      proof (cases "fi = nat findex")
        case True
        with a fs fb have g: "g = fl'" by simp
        with a ln have lb: "li < length (LinesMsgs fl)" by simp
        from i fb ff lb have "sorted_wrt (<) (slotIdx (LinesMsgs fl ! li))
          \<and> (\<forall>a\<in>set (slotIdx (LinesMsgs fl ! li)). 0 \<le> a \<and> a \<le> lastArrivalIndex di)"
          unfolding index_inv_def by blast
        then show ?thesis unfolding g nth[OF lb] .
      next
        case False
        with a fs have "fi < length (Files di)" "Files di ! fi = Some g" by simp_all
        with i a(3) show ?thesis unfolding index_inv_def by blast
      qed
      then show "sorted_wrt (<) (slotIdx (LinesMsgs g ! li))"
        and "\<forall>a\<in>set (slotIdx (LinesMsgs g ! li)). 0 \<le> a \<and> a \<le> lastArrivalIndex di"
        by simp_all
    qed
    have 3: "caches_inv di'" unfolding caches_inv_def
    proof (intro allI impI)
      fix fi g assume a: "fi < length (Files di')" "Files di' ! fi = Some g"
      show "length (AnnEntries g) = length (LinesMsgs g)
        \<and> length (AnnEntriesLMIndex g) = length (LinesMsgs g)"
      proof (cases "fi = nat findex")
        case True
        with a fs fb have "g = fl'" by simp
        moreover from k fb ff have "length (AnnEntries fl) = length (LinesMsgs fl)
          \<and> length (AnnEntriesLMIndex fl) = length (LinesMsgs fl)" by (simp add: caches_inv_def)
        ultimately show ?thesis using l1 l2 ln by simp
      next
        case False
        with a fs have "fi < length (Files di)" "Files di ! fi = Some g" by simp_all
        with k show ?thesis by (simp add: caches_inv_def)
      qed
    qed
    from 1 2 3 show ?thesis by simp
  qed
qed

lemma selectCurrent_unfold:
  assumes "selectCurrent toLower di name annIndex offset typ = Some (di', b)"
  shows "di' = di
     \<or> (\<exists>fi fl li k. 0 \<le> fi \<and> nat fi < length (Files di) \<and> Files di ! nat fi = Some fl
           \<and> li < length (LinesMsgs fl) \<and> k < length (lineMsgs (LinesMsgs fl ! li))
           \<and> di' = di\<lparr>selected := (selected di)\<lparr>sel_arrivalIndex :=
                         arrivalIndex (lineMsgs (LinesMsgs fl ! li) ! k)\<rparr>\<rparr>)"
proof (cases "currentAnnotationFileLine toLower di name annIndex")
  case None
  with assms show ?thesis by (simp add: selectCurrent_def)
next
  case (Some r)
  show ?thesis
  proof (cases r)
    case None
    with Some assms show ?thesis by (simp add: selectCurrent_def)
  next
    case (Some p)
    obtain fl line where p: "p = (fl, line)" by (cases p) auto
    from \<open>currentAnnotationFileLine toLower di name annIndex = Some r\<close> Some p
    obtain fi where
      fb: "0 \<le> fi" "nat fi < length (Files di)" "Files di ! nat fi = Some fl"
      and lb: "0 \<le> annIndex" "nat annIndex < length (LinesMsgs fl)" "line = LinesMsgs fl ! nat annIndex"
      by (auto simp: currentAnnotationFileLine_def at_def split: option.splits if_splits)
    have sel0: "di' = di \<or> (\<exists>k' m. at (lineMsgs line) k' = Some m
        \<and> di' = di\<lparr>selected := (selected di)\<lparr>sel_arrivalIndex := arrivalIndex m\<rparr>\<rparr>)"
      using assms \<open>currentAnnotationFileLine toLower di name annIndex = Some r\<close> Some p
      by (cases "typ")
         (auto simp: selectCurrent_def Let_def split: option.splits if_splits)
    have sel: "di' = di \<or> (\<exists>k < length (lineMsgs line).
        di' = di\<lparr>selected := (selected di)\<lparr>sel_arrivalIndex := arrivalIndex (lineMsgs line ! k)\<rparr>\<rparr>)"
      using sel0
    proof
      assume "di' = di" then show ?thesis by simp
    next
      assume "\<exists>k' m. at (lineMsgs line) k' = Some m
        \<and> di' = di\<lparr>selected := (selected di)\<lparr>sel_arrivalIndex := arrivalIndex m\<rparr>\<rparr>"
      then obtain k' m where a: "at (lineMsgs line) k' = Some m"
        and d: "di' = di\<lparr>selected := (selected di)\<lparr>sel_arrivalIndex := arrivalIndex m\<rparr>\<rparr>" by blast
      from a have "nat k' < length (lineMsgs line)" "m = lineMsgs line ! nat k'"
        by (auto simp: at_def split: if_splits)
      with d show ?thesis by blast
    qed
    with fb lb show ?thesis by blast
  qed
qed

lemma invs_selectCurrent:
  assumes h: "selectCurrent toLower di name annIndex offset typ = Some (di', b)"
    and i: "index_inv di" and c: "cursor_inv di" and k: "caches_inv di"
  shows "index_inv di' \<and> cursor_inv di' \<and> caches_inv di'"
proof -
  from selectCurrent_unfold[OF h] show ?thesis
  proof
    assume "di' = di"
    with i c k show ?thesis by simp
  next
    assume "\<exists>fi fl li k. 0 \<le> fi \<and> nat fi < length (Files di) \<and> Files di ! nat fi = Some fl
           \<and> li < length (LinesMsgs fl) \<and> k < length (lineMsgs (LinesMsgs fl ! li))
           \<and> di' = di\<lparr>selected := (selected di)\<lparr>sel_arrivalIndex :=
                         arrivalIndex (lineMsgs (LinesMsgs fl ! li) ! k)\<rparr>\<rparr>"
    then obtain fi fl li n where
      fb: "nat fi < length (Files di)" "Files di ! nat fi = Some fl" "li < length (LinesMsgs fl)"
      and kb: "n < length (lineMsgs (LinesMsgs fl ! li))"
      and d: "di' = di\<lparr>selected := (selected di)\<lparr>sel_arrivalIndex :=
                         arrivalIndex (lineMsgs (LinesMsgs fl ! li) ! n)\<rparr>\<rparr>" by blast
    have "arrivalIndex (lineMsgs (LinesMsgs fl ! li) ! n) \<in> set (slotIdx (LinesMsgs fl ! li))"
      using kb by (simp add: slotIdx_def)
    with i fb have "0 \<le> arrivalIndex (lineMsgs (LinesMsgs fl ! li) ! n)
        \<and> arrivalIndex (lineMsgs (LinesMsgs fl ! li) ! n) \<le> lastArrivalIndex di"
      unfolding index_inv_def by blast
    then have 2: "cursor_inv di'" by (simp add: d cursor_inv_def)
    from i k d index_inv_same[of di' di] caches_inv_same[of di' di] 2 show ?thesis by simp
  qed
qed

lemma invs_select:
  assumes i: "index_inv di" and c: "cursor_inv di" and k: "caches_inv di"
  shows "index_inv (fst (selectFirst di)) \<and> cursor_inv (fst (selectFirst di)) \<and> caches_inv (fst (selectFirst di))"
    and "index_inv (fst (selectLast di)) \<and> cursor_inv (fst (selectLast di)) \<and> caches_inv (fst (selectLast di))"
    and "index_inv (fst (selectPrev di)) \<and> cursor_inv (fst (selectPrev di)) \<and> caches_inv (fst (selectPrev di))"
    and "index_inv (fst (selectNext di)) \<and> cursor_inv (fst (selectNext di)) \<and> caches_inv (fst (selectNext di))"
proof -
  have f: "Files (fst (selectFirst di)) = Files di" "lastArrivalIndex (fst (selectFirst di)) = lastArrivalIndex di"
    "Files (fst (selectLast di)) = Files di" "lastArrivalIndex (fst (selectLast di)) = lastArrivalIndex di"
    "Files (fst (selectPrev di)) = Files di" "lastArrivalIndex (fst (selectPrev di)) = lastArrivalIndex di"
    "Files (fst (selectNext di)) = Files di" "lastArrivalIndex (fst (selectNext di)) = lastArrivalIndex di"
    by (simp_all add: selectFirst_def selectLast_def selectPrev_def selectNext_def)
  show "index_inv (fst (selectFirst di)) \<and> cursor_inv (fst (selectFirst di)) \<and> caches_inv (fst (selectFirst di))"
    using i k f index_inv_same[of "fst (selectFirst di)" di] caches_inv_same[of "fst (selectFirst di)" di]
      cursor_inv_selectFirst[of di] by simp
  show "index_inv (fst (selectLast di)) \<and> cursor_inv (fst (selectLast di)) \<and> caches_inv (fst (selectLast di))"
    using i k f index_inv_same[of "fst (selectLast di)" di] caches_inv_same[of "fst (selectLast di)" di]
      cursor_inv_selectLast[OF c] by simp
  show "index_inv (fst (selectPrev di)) \<and> cursor_inv (fst (selectPrev di)) \<and> caches_inv (fst (selectPrev di))"
    using i k f index_inv_same[of "fst (selectPrev di)" di] caches_inv_same[of "fst (selectPrev di)" di]
      cursor_inv_selectPrev[OF c] by simp
  show "index_inv (fst (selectNext di)) \<and> cursor_inv (fst (selectNext di)) \<and> caches_inv (fst (selectNext di))"
    using i k f index_inv_same[of "fst (selectNext di)" di] caches_inv_same[of "fst (selectNext di)" di]
      cursor_inv_selectNext[OF c] by simp
qed

lemma reachable_invs: "reachable di \<Longrightarrow> index_inv di \<and> cursor_inv di \<and> caches_inv di"
proof (induction rule: reachable.induct)
  case (reach_new b di)
  then show ?case by (rule invs_NewGDDataIndex)
next
  case (reach_meta di toLower fdm di' e)
  then show ?case using invs_handleFilesDataMsg by blast
next
  case (reach_event di u di' e)
  then show ?case using invs_handleLineMsg by blast
next
  case (reach_clear di di')
  then show ?case using invs_clearMsgs by blast
next
  case (reach_first di)
  then show ?case using invs_select(1) by blast
next
  case (reach_last di)
  then show ?case using invs_select(2) by blast
next
  case (reach_prev di)
  then show ?case using invs_select(3) by blast
next
  case (reach_next di)
  then show ?case using invs_select(4) by blast
next
  case (reach_current di toLower name annIndex offset ty di' b)
  then show ?case using invs_selectCurrent by blast
next
  case (reach_refresh di toLower sfy info di' calls)
  then show ?case using invs_updateInfoUI by blast
qed

text \<open>In a state the index reaches, a refresh of any file of the index returns.\<close>

lemma reachable_refresh_returns:
  assumes "reachable di" and "fi < length (Files di)" and "Files di ! fi = Some fl"
  shows "\<exists>r. findSelectedAndUpdateAnnEntries sfy fl c = Some r"
proof -
  from reachable_invs[OF assms(1)] have i: "index_inv di" and k: "caches_inv di" by simp_all
  from k assms(2,3) have l: "length (LinesMsgs fl) \<le> length (AnnEntries fl)"
    "length (LinesMsgs fl) \<le> length (AnnEntriesLMIndex fl)" by (simp_all add: caches_inv_def)
  from findLoop_prefix[OF l, of "length (LinesMsgs fl)" sfy c]
  show ?thesis by (auto simp: findSelectedAndUpdateAnnEntries_def)
qed

end
